theory Spec2Isabelle
  imports Main
begin

section \<open>Python values\<close>

text \<open>
  The reminders of the application are Python dictionaries, built by the application or
  read back from a JSON document. A value is what \<^verbatim>\<open>json.load\<close> can return:
  \<^verbatim>\<open>None\<close>, a boolean, an integer, a string, a list, or a dictionary with string keys
  (its items in insertion order). JSON numbers with a fraction are outside the model, and a
  string is a list of 8-bit characters.
\<close>

datatype pyval =
    PNone
  | PBool bool
  | PInt int
  | PStr string
  | PList "pyval list"
  | PDict "(string \<times> pyval) list"

text \<open>A call either returns or raises; every \<^verbatim>\<open>except\<close> of the program is bare, so
  the kind of the exception never matters.\<close>

datatype outcome = Returned | Raised

text \<open>Truth value of an object in a condition (\<^verbatim>\<open>if x\<close>, \<^verbatim>\<open>x and y\<close>).\<close>

fun truthy :: "pyval \<Rightarrow> bool" where
  "truthy PNone = False"
| "truthy (PBool b) = b"
| "truthy (PInt n) = (n \<noteq> 0)"
| "truthy (PStr s) = (s \<noteq> [])"
| "truthy (PList xs) = (xs \<noteq> [])"
| "truthy (PDict kvs) = (kvs \<noteq> [])"

text \<open>\<^verbatim>\<open>r[k]\<close> for a string key: only a dictionary holding the key answers; a missing key
  raises KeyError and any other object TypeError (\<open>None\<close> here).\<close>

fun getitem :: "pyval \<Rightarrow> string \<Rightarrow> pyval option" where
  "getitem (PDict kvs) k = map_of kvs k"
| "getitem _ k = None"

text \<open>\<^verbatim>\<open>d.get(k)\<close> on a dictionary: \<^verbatim>\<open>None\<close> for a missing key.\<close>

definition dict_get :: "(string \<times> pyval) list \<Rightarrow> string \<Rightarrow> pyval" where
  "dict_get kvs k = (case map_of kvs k of None \<Rightarrow> PNone | Some v \<Rightarrow> v)"

text \<open>\<^verbatim>\<open>d.get(k, default)\<close>.\<close>

definition dict_get_default :: "(string \<times> pyval) list \<Rightarrow> string \<Rightarrow> pyval \<Rightarrow> pyval" where
  "dict_get_default kvs k dflt = (case map_of kvs k of None \<Rightarrow> dflt | Some v \<Rightarrow> v)"

text \<open>\<^verbatim>\<open>d[k] = v\<close>: an existing key keeps its place, a new key goes last.\<close>

fun dict_set :: "string \<Rightarrow> pyval \<Rightarrow> (string \<times> pyval) list \<Rightarrow> (string \<times> pyval) list" where
  "dict_set k v [] = [(k, v)]"
| "dict_set k v ((k', v') # kvs) =
     (if k' = k then (k, v) # kvs else (k', v') # dict_set k v kvs)"

fun setitem :: "pyval \<Rightarrow> string \<Rightarrow> pyval \<Rightarrow> pyval option" where
  "setitem (PDict kvs) k v = Some (PDict (dict_set k v kvs))"
| "setitem _ k v = None"

text \<open>\<^verbatim>\<open>x == n\<close> for an integer \<open>n\<close> and \<^verbatim>\<open>x == s\<close> for a string \<open>s\<close>. Python's booleans
  are integers (\<^verbatim>\<open>True == 1\<close>); values of other types are unequal.\<close>

fun eq_int :: "pyval \<Rightarrow> int \<Rightarrow> bool" where
  "eq_int (PInt m) n = (m = n)"
| "eq_int (PBool b) n = ((if b then 1 else 0) = n)"
| "eq_int _ n = False"

fun eq_str :: "pyval \<Rightarrow> string \<Rightarrow> bool" where
  "eq_str (PStr s) t = (s = t)"
| "eq_str _ t = False"

text \<open>The elements a \<^verbatim>\<open>for\<close> loop visits: the items of a list, the keys of a dictionary,
  the characters of a string; other objects are not iterable.\<close>

fun py_iter :: "pyval \<Rightarrow> pyval list option" where
  "py_iter (PList xs) = Some xs"
| "py_iter (PDict kvs) = Some (map (\<lambda>kv. PStr (fst kv)) kvs)"
| "py_iter (PStr s) = Some (map (\<lambda>c. PStr [c]) s)"
| "py_iter _ = None"

section \<open>Formatting numbers\<close>

definition digit :: "nat \<Rightarrow> char" where
  "digit n = ''0123456789'' ! (n mod 10)"

fun dec :: "nat \<Rightarrow> string" where
  "dec n = (if n < 10 then [digit n] else dec (n div 10) @ [digit n])"

declare dec.simps [simp del]

definition zfill :: "nat \<Rightarrow> string \<Rightarrow> string" where
  "zfill w s = replicate (w - length s) (CHR ''0'') @ s"

text \<open>The format specification \<^verbatim>\<open>02d\<close> of an f-string: at least two characters, padded
  with zeros after the sign.\<close>

definition format_02d :: "int \<Rightarrow> string" where
  "format_02d i =
     (if i < 0 then CHR ''-'' # zfill 1 (dec (nat (- i))) else zfill 2 (dec (nat i)))"

text \<open>\<^verbatim>\<open>str.strip()\<close>: the whitespace characters among the first 256 code points.\<close>

definition is_space :: "char \<Rightarrow> bool" where
  "is_space c =
     (let n = (of_char c :: nat)
      in (9 \<le> n \<and> n \<le> 13) \<or> (28 \<le> n \<and> n \<le> 32) \<or> n = 133 \<or> n = 160)"

definition strip :: "string \<Rightarrow> string" where
  "strip s = rev (dropWhile is_space (rev (dropWhile is_space s)))"

section \<open>Twelve-hour to twenty-four-hour time\<close>

text \<open>
  \<^verbatim>\<open>
  def get_24hour_time(self, hour, minute, ampm):
      hour = int(hour)
      minute = int(minute)
      if ampm == "AM" and hour == 12:
          hour = 0
      elif ampm == "PM" and hour != 12:
          hour += 12
      return f"{hour:02d}:{minute:02d}"
  \<close>
\<close>

definition get_24hour_time :: "int \<Rightarrow> int \<Rightarrow> string \<Rightarrow> string" where
  "get_24hour_time hour minute ampm =
     (let hour' = (if ampm = ''AM'' \<and> hour = 12 then 0
                   else if ampm = ''PM'' \<and> hour \<noteq> 12 then hour + 12
                   else hour)
      in format_02d hour' @ '':'' @ format_02d minute)"

text \<open>The specification's reading of the conversion: the hour of the day a twelve-hour
  clock reading stands for, and the shape \<open>HH:MM\<close>.\<close>

definition spec_hour24 :: "int \<Rightarrow> string \<Rightarrow> nat" where
  "spec_hour24 h ampm =
     (if ampm = ''AM'' then (if h = 12 then 0 else nat h)
      else (if h = 12 then 12 else nat h + 12))"

definition hhmm :: "nat \<Rightarrow> nat \<Rightarrow> string" where
  "hhmm H M = [digit (H div 10), digit (H mod 10), CHR '':'', digit (M div 10), digit (M mod 10)]"

definition clock12 :: "(int \<times> int \<times> string) set" where
  "clock12 = {1..12} \<times> {0..59} \<times> {''AM'', ''PM''}"

definition clock24 :: "string set" where
  "clock24 = {hhmm H M | H M. H < 24 \<and> M < 60}"

section \<open>Dates and times\<close>

text \<open>
  A naive \<^verbatim>\<open>datetime\<close> of the standard library, as \<^verbatim>\<open>datetime.now()\<close> returns it. The
  arithmetic follows the library: a date is counted in days from 0001-01-01 (day 1), and
  adding a \<^verbatim>\<open>timedelta\<close> goes through that count; a result outside the years 1 to 9999
  raises OverflowError.
\<close>

record datetime =
  dt_year :: nat
  dt_month :: nat
  dt_day :: nat
  dt_hour :: nat
  dt_minute :: nat
  dt_second :: nat
  dt_microsecond :: nat

definition is_leap :: "nat \<Rightarrow> bool" where
  "is_leap y = (y mod 4 = 0 \<and> (y mod 100 \<noteq> 0 \<or> y mod 400 = 0))"

definition days_in_month_table :: "nat list" where
  "days_in_month_table = [0, 31, 28, 31, 30, 31, 30, 31, 31, 30, 31, 30, 31]"

definition days_before_month_table :: "nat list" where
  "days_before_month_table = [0, 0, 31, 59, 90, 120, 151, 181, 212, 243, 273, 304, 334]"

definition days_before_year :: "nat \<Rightarrow> nat" where
  "days_before_year year = (let y = year - 1 in y * 365 + y div 4 - y div 100 + y div 400)"

definition days_before_month :: "nat \<Rightarrow> nat \<Rightarrow> nat" where
  "days_before_month year month =
     days_before_month_table ! month + (if month > 2 \<and> is_leap year then 1 else 0)"

definition ymd2ord :: "nat \<Rightarrow> nat \<Rightarrow> nat \<Rightarrow> nat" where
  "ymd2ord year month day = days_before_year year + days_before_month year month + day"

text \<open>The inverse, for an ordinal \<open>n \<ge> 1\<close>: 146097 days in 400 years, 36524 in a century
  that does not end in a leap year, 1461 in four years.\<close>

definition ord2ymd :: "nat \<Rightarrow> nat \<times> nat \<times> nat" where
  "ord2ymd ordinal =
     (let n = ordinal - 1;
          n400 = n div 146097; n = n mod 146097;
          n100 = n div 36524; n = n mod 36524;
          n4 = n div 1461; n = n mod 1461;
          n1 = n div 365; n = n mod 365;
          year = n400 * 400 + 1 + n100 * 100 + n4 * 4 + n1
      in if n1 = 4 \<or> n100 = 4 then (year - 1, 12, 31)
         else
           let leapyear = (n1 = 3 \<and> (n4 \<noteq> 24 \<or> n100 = 3));
               month = (n + 50) div 32;
               preceding = days_before_month_table ! month
                           + (if month > 2 \<and> leapyear then 1 else 0)
           in if preceding > n
              then let month' = month - 1;
                       preceding' = preceding
                         - (days_in_month_table ! month'
                            + (if month' = 2 \<and> leapyear then 1 else 0))
                   in (year, month', n - preceding' + 1)
              else (year, month, n - preceding + 1))"

definition max_ordinal :: int where
  "max_ordinal = 3652059"

text \<open>\<^verbatim>\<open>now + timedelta(minutes=m)\<close>; \<open>None\<close> when the library raises OverflowError.\<close>

definition add_minutes :: "datetime \<Rightarrow> int \<Rightarrow> datetime option" where
  "add_minutes t m =
     (let total = int (dt_hour t * 3600 + dt_minute t * 60 + dt_second t) + m * 60;
          days = int (ymd2ord (dt_year t) (dt_month t) (dt_day t)) + total div 86400;
          secs = nat (total mod 86400)
      in if 0 < days \<and> days \<le> max_ordinal
         then (case ord2ymd (nat days) of (y, mo, d) \<Rightarrow>
                 Some \<lparr>dt_year = y, dt_month = mo, dt_day = d,
                       dt_hour = secs div 3600, dt_minute = (secs mod 3600) div 60,
                       dt_second = (secs mod 3600) mod 60,
                       dt_microsecond = dt_microsecond t\<rparr>)
         else None)"

text \<open>\<^verbatim>\<open>strftime\<close> with the three formats the program uses: \<^verbatim>\<open>"%Y-%m-%d"\<close>, \<^verbatim>\<open>"%H:%M"\<close>
  and \<^verbatim>\<open>"%Y-%m-%d %H:%M"\<close>. The year is written with four digits.\<close>

definition strftime_ymd :: "datetime \<Rightarrow> string" where
  "strftime_ymd t =
     zfill 4 (dec (dt_year t)) @ ''-'' @ zfill 2 (dec (dt_month t)) @ ''-''
       @ zfill 2 (dec (dt_day t))"

definition strftime_hm :: "datetime \<Rightarrow> string" where
  "strftime_hm t = zfill 2 (dec (dt_hour t)) @ '':'' @ zfill 2 (dec (dt_minute t))"

definition strftime_ymd_hm :: "datetime \<Rightarrow> string" where
  "strftime_ymd_hm t = strftime_ymd t @ '' '' @ strftime_hm t"

text \<open>The specification's "truncated to minute granularity": the seconds and the
  microseconds dropped.\<close>

definition truncate_to_minute :: "datetime \<Rightarrow> datetime" where
  "truncate_to_minute t = t\<lparr>dt_second := 0, dt_microsecond := 0\<rparr>"

section \<open>The application state\<close>

text \<open>
  The persisted document \<^verbatim>\<open>DATA_FILE\<close>, as reading it sees it: no file, a file that
  cannot be opened or parsed (\<^verbatim>\<open>open\<close> or \<^verbatim>\<open>json.load\<close> raises), or the value
  \<^verbatim>\<open>json.load\<close> returns. \<^verbatim>\<open>json.dump\<close> and \<^verbatim>\<open>json.load\<close> are the standard
  library's; on the values of \<^typ>\<open>pyval\<close> reading gives back what was written.
\<close>

datatype fcontent = Missing | Malformed | Doc pyval

text \<open>A snoozed item is a dictionary the program builds itself, always with the same seven
  keys; the reminders stay dictionaries, since they also come from the document.\<close>

record snoozed =
  sn_id :: int
  sn_original_id :: pyval
  sn_title :: string
  sn_message :: pyval
  sn_trigger_time :: string
  sn_custom_voice :: pyval
  sn_active :: bool

text \<open>The fields of \<^verbatim>\<open>ReminderApp\<close> the core works on, and the document on disk.\<close>

record app =
  reminders :: pyval
  alarms :: pyval
  snoozed_items :: "snoozed list"
  pending_voice_note :: "string option"
  data_file :: fcontent

text \<open>The arguments of a call of \<^verbatim>\<open>show_fullscreen_alert(title, message, item_id,
  custom_voice)\<close>.\<close>

record alert =
  al_title :: string
  al_message :: pyval
  al_item_id :: pyval
  al_custom_voice :: pyval

text \<open>
  What the surroundings do during one scan of a list: whether the alert shown for the list
  position \<open>i\<close> raises (the window system may refuse), what happens to the write of the
  document made at position \<open>i\<close>, and how \<^verbatim>\<open>str()\<close> prints a value that is not a string.
  A write that cannot open the file leaves it as it was; a write that fails after opening
  leaves a truncated document, which no longer parses.
\<close>

datatype disk = Disk_ok | Open_fails | Write_fails

record env =
  alert_raises :: "nat \<Rightarrow> bool"
  disk_at :: "nat \<Rightarrow> disk"
  str_of :: "pyval \<Rightarrow> string"

definition format_value :: "env \<Rightarrow> pyval \<Rightarrow> string" where
  "format_value e v = (case v of PStr s \<Rightarrow> s | _ \<Rightarrow> str_of e v)"

text \<open>\<^verbatim>\<open>try: ... except: pass\<close> around a body: whatever the body did stays done, and the
  exception goes no further.\<close>

definition swallow :: "outcome \<times> 'a \<Rightarrow> outcome \<times> 'a" where
  "swallow r = (Returned, snd r)"

section \<open>Saving and loading\<close>

text \<open>
  \<^verbatim>\<open>
  def save_data(self):
      with open(DATA_FILE, 'w') as f:
          json.dump({'reminders': self.reminders, 'alarms': self.alarms}, f, indent=2)
  \<close>
\<close>

definition document :: "app \<Rightarrow> pyval" where
  "document st = PDict [(''reminders'', reminders st), (''alarms'', alarms st)]"

definition save_data :: "disk \<Rightarrow> app \<Rightarrow> outcome \<times> app" where
  "save_data dk st =
     (case dk of
        Disk_ok \<Rightarrow> (Returned, st\<lparr>data_file := Doc (document st)\<rparr>)
      | Open_fails \<Rightarrow> (Raised, st)
      | Write_fails \<Rightarrow> (Raised, st\<lparr>data_file := Malformed\<rparr>))"

text \<open>
  \<^verbatim>\<open>
  def load_data(self):
      if os.path.exists(DATA_FILE):
          try:
              with open(DATA_FILE, 'r') as f:
                  data = json.load(f)
                  self.reminders = data.get('reminders', [])
                  self.alarms = data.get('alarms', [])
          except:
              pass
  \<close>
  Only a dictionary has \<^verbatim>\<open>get\<close>.
\<close>

definition load_data_body :: "app \<Rightarrow> outcome \<times> app" where
  "load_data_body st =
     (case data_file st of
        Doc (PDict kvs) \<Rightarrow>
          (Returned, st\<lparr>reminders := dict_get_default kvs ''reminders'' (PList []),
                         alarms := dict_get_default kvs ''alarms'' (PList [])\<rparr>)
      | _ \<Rightarrow> (Raised, st))"

definition load_data :: "app \<Rightarrow> outcome \<times> app" where
  "load_data st =
     (if data_file st \<noteq> Missing then swallow (load_data_body st) else (Returned, st))"

text \<open>The start of \<^verbatim>\<open>ReminderApp.__init__\<close>: empty lists, then \<^verbatim>\<open>load_data\<close>.\<close>

definition fresh_app :: "fcontent \<Rightarrow> app" where
  "fresh_app f =
     \<lparr>reminders = PList [], alarms = PList [], snoozed_items = [],
      pending_voice_note = None, data_file = f\<rparr>"

definition app_init :: "fcontent \<Rightarrow> outcome \<times> app" where
  "app_init f = load_data (fresh_app f)"

section \<open>Adding, editing and deleting reminders\<close>

text \<open>
  What the user has entered in the form: the two text entries, the date picked, the two
  spin boxes (\<open>None\<close> when the text of a spin box is not an integer, so that reading it
  raises), the AM/PM choice and the text of the priority box.
\<close>

record form =
  f_title :: string
  f_desc :: string
  f_date :: datetime
  f_hour :: "int option"
  f_minute :: "int option"
  f_ampm :: string
  f_priority :: string

text \<open>
  \<^verbatim>\<open>
  def add_reminder_gui(self):
      title = self.reminder_title.get().strip()
      if not title:
          messagebox.showerror("Error", "Enter a title!")
          return
      reminder = {
          'id': int(time.time() * 1000),
          'title': title,
          'description': self.reminder_desc.get().strip(),
          'date': self.reminder_date.get_date().strftime("%Y-%m-%d"),
          'time': self.get_24hour_time(self.hour_var.get(), self.minute_var.get(),
                                       self.ampm_var.get()),
          'priority': self.reminder_priority.get(),
          'active': True
      }
      if self.pending_voice_note:
          reminder['voice_note'] = self.pending_voice_note
          self.pending_voice_note = None
      self.reminders.append(reminder)
      self.save_data()
      ...
  \<close>
  \<open>clock_ms\<close> is the reading \<^verbatim>\<open>int(time.time() * 1000)\<close> of the system clock. Only a
  list has \<^verbatim>\<open>append\<close>. The refresh of the list box after the save is not modelled.
\<close>

definition new_reminder :: "int \<Rightarrow> string \<Rightarrow> form \<Rightarrow> int \<Rightarrow> int \<Rightarrow> (string \<times> pyval) list" where
  "new_reminder clock_ms title f h mi =
     [(''id'', PInt clock_ms),
      (''title'', PStr title),
      (''description'', PStr (strip (f_desc f))),
      (''date'', PStr (strftime_ymd (f_date f))),
      (''time'', PStr (get_24hour_time h mi (f_ampm f))),
      (''priority'', PStr (f_priority f)),
      (''active'', PBool True)]"

definition append_reminder :: "disk \<Rightarrow> (string \<times> pyval) list \<Rightarrow> app \<Rightarrow> outcome \<times> app" where
  "append_reminder dk reminder st =
     (case reminders st of
        PList xs \<Rightarrow> save_data dk (st\<lparr>reminders := PList (xs @ [PDict reminder])\<rparr>)
      | _ \<Rightarrow> (Raised, st))"

definition add_reminder_gui :: "disk \<Rightarrow> int \<Rightarrow> form \<Rightarrow> app \<Rightarrow> outcome \<times> app" where
  "add_reminder_gui dk clock_ms f st =
     (let title = strip (f_title f)
      in if title = [] then (Returned, st)
         else
           (case f_hour f of
              None \<Rightarrow> (Raised, st)
            | Some h \<Rightarrow>
              (case f_minute f of
                 None \<Rightarrow> (Raised, st)
               | Some mi \<Rightarrow>
                 (let reminder = new_reminder clock_ms title f h mi
                  in case pending_voice_note st of
                       None \<Rightarrow> append_reminder dk reminder st
                     | Some path \<Rightarrow>
                         if path = [] then append_reminder dk reminder st
                         else append_reminder dk
                                (dict_set ''voice_note'' (PStr path) reminder)
                                (st\<lparr>pending_voice_note := None\<rparr>)))))"

text \<open>
  The row selected in the list box, as \<^verbatim>\<open>delete_reminder\<close> and \<^verbatim>\<open>edit_reminder\<close>
  read it: nothing selected, a row whose text does not yield an integer
  (\<^verbatim>\<open>int(item_text.split("ID:")[1].strip())\<close> raises, as it does for a row whose title
  contains \<^verbatim>\<open>"ID:"\<close>), or the integer read.
\<close>

datatype selection = No_selection | Row_unparsed | Row_id int

text \<open>\<^verbatim>\<open>[r for r in self.reminders if r['id'] != reminder_id]\<close>; \<open>None\<close> when reading an
  \<^verbatim>\<open>'id'\<close> raises.\<close>

fun keep_others :: "int \<Rightarrow> pyval list \<Rightarrow> pyval list option" where
  "keep_others n [] = Some []"
| "keep_others n (r # rs) =
     (case getitem r ''id'' of
        None \<Rightarrow> None
      | Some v \<Rightarrow>
          (case keep_others n rs of
             None \<Rightarrow> None
           | Some ys \<Rightarrow> Some (if eq_int v n then ys else r # ys)))"

text \<open>
  \<^verbatim>\<open>
  def delete_reminder(self):
      selection = self.reminders_listbox.curselection()
      if not selection:
          messagebox.showwarning("Warning", "Select a reminder!")
          return
      item_text = self.reminders_listbox.get(selection[0])
      try:
          reminder_id = int(item_text.split("ID:")[1].strip())
          self.reminders = [r for r in self.reminders if r['id'] != reminder_id]
          self.save_data()
          self.refresh_reminders_list()
          messagebox.showinfo("Success", "Deleted!")
      except:
          pass
  \<close>
\<close>

definition delete_body :: "disk \<Rightarrow> selection \<Rightarrow> app \<Rightarrow> outcome \<times> app" where
  "delete_body dk sel st =
     (case sel of
        Row_id n \<Rightarrow>
          (case py_iter (reminders st) of
             None \<Rightarrow> (Raised, st)
           | Some xs \<Rightarrow>
               (case keep_others n xs of
                  None \<Rightarrow> (Raised, st)
                | Some ys \<Rightarrow> save_data dk (st\<lparr>reminders := PList ys\<rparr>)))
      | _ \<Rightarrow> (Raised, st))"

definition delete_reminder :: "disk \<Rightarrow> selection \<Rightarrow> app \<Rightarrow> outcome \<times> app" where
  "delete_reminder dk sel st =
     (if sel = No_selection then (Returned, st) else swallow (delete_body dk sel st))"

text \<open>
  \<^verbatim>\<open>next((r for r in self.reminders if r['id'] == reminder_id), None)\<close>: the first
  reminder with the id, and its position in the list.
\<close>

datatype found = Find_raised | Not_found | Found nat pyval

fun find_by_id :: "int \<Rightarrow> nat \<Rightarrow> pyval list \<Rightarrow> found" where
  "find_by_id n i [] = Not_found"
| "find_by_id n i (r # rs) =
     (case getitem r ''id'' of
        None \<Rightarrow> Find_raised
      | Some v \<Rightarrow> if eq_int v n then Found i r else find_by_id n (Suc i) rs)"

text \<open>
  The edit dialog. Beside the fields of the form: whether the user pressed "Remove Voice
  Note" (the button exists when the reminder has a voice note), the path of a newly recorded
  voice note if there is one, and whether the dialog was closed with "Save Changes".
  \<^verbatim>\<open>
  def remove_voice():
      reminder['voice_note'] = None
      new_voice_note['path'] = None
      ...
  def save():
      reminder['title'] = title_entry.get().strip()
      reminder['description'] = desc_entry.get().strip()
      reminder['date'] = date_entry.get_date().strftime("%Y-%m-%d")
      reminder['time'] = self.get_24hour_time(edit_hour_var.get(), edit_minute_var.get(),
                                              edit_ampm_var.get())
      reminder['priority'] = priority_combo.get()
      if new_voice_note['path']:
          reminder['voice_note'] = new_voice_note['path']
      self.save_data()
      ...
  \<close>
\<close>

record edit_form = form +
  e_remove_voice :: bool
  e_new_voice :: "string option"
  e_save :: bool

definition remove_voice :: "edit_form \<Rightarrow> (string \<times> pyval) list \<Rightarrow> (string \<times> pyval) list" where
  "remove_voice f r =
     (if e_remove_voice f \<and> truthy (dict_get_default r ''voice_note'' (PStr []))
      then dict_set ''voice_note'' PNone r else r)"

text \<open>The assignments of \<^verbatim>\<open>save\<close> up to the point where reading a spin box may raise,
  and from there on.\<close>

definition save_first :: "edit_form \<Rightarrow> (string \<times> pyval) list \<Rightarrow> (string \<times> pyval) list" where
  "save_first f r =
     dict_set ''date'' (PStr (strftime_ymd (f_date f)))
       (dict_set ''description'' (PStr (strip (f_desc f)))
         (dict_set ''title'' (PStr (strip (f_title f))) r))"

definition save_rest :: "edit_form \<Rightarrow> int \<Rightarrow> int \<Rightarrow> (string \<times> pyval) list \<Rightarrow> (string \<times> pyval) list" where
  "save_rest f h mi r =
     (let r' = dict_set ''priority'' (PStr (f_priority f))
                 (dict_set ''time'' (PStr (get_24hour_time h mi (f_ampm f))) r)
      in case e_new_voice f of
           None \<Rightarrow> r'
         | Some path \<Rightarrow> if path = [] then r' else dict_set ''voice_note'' (PStr path) r')"

definition put_reminder :: "nat \<Rightarrow> (string \<times> pyval) list \<Rightarrow> pyval list \<Rightarrow> app \<Rightarrow> app" where
  "put_reminder i r xs st = st\<lparr>reminders := PList (xs[i := PDict r])\<rparr>"

definition edit_dialog :: "disk \<Rightarrow> edit_form \<Rightarrow> nat \<Rightarrow> (string \<times> pyval) list \<Rightarrow> pyval list \<Rightarrow> app
    \<Rightarrow> outcome \<times> app" where
  "edit_dialog dk f i r xs st =
     (let r0 = remove_voice f r
      in if \<not> e_save f then (Returned, put_reminder i r0 xs st)
         else
           (let r1 = save_first f r0
            in case f_hour f of
                 None \<Rightarrow> (Raised, put_reminder i r1 xs st)
               | Some h \<Rightarrow>
                 (case f_minute f of
                    None \<Rightarrow> (Raised, put_reminder i r1 xs st)
                  | Some mi \<Rightarrow> save_data dk (put_reminder i (save_rest f h mi r1) xs st))))"

text \<open>
  \<^verbatim>\<open>
  def edit_reminder(self):
      selection = self.reminders_listbox.curselection()
      if not selection:
          messagebox.showwarning("Warning", "Select a reminder to edit!")
          return
      item_text = self.reminders_listbox.get(selection[0])
      try:
          reminder_id = int(item_text.split("ID:")[1].strip())
          reminder = next((r for r in self.reminders if r['id'] == reminder_id), None)
          if reminder:
              self.show_edit_dialog(reminder)
      except:
          messagebox.showerror("Error", "Could not edit")
  \<close>
  Opening the dialog reads the reminder's \<^verbatim>\<open>'title'\<close> and \<^verbatim>\<open>'description'\<close> and
  takes \<^verbatim>\<open>os.path.basename\<close> of a voice note that is set, which raises when the voice
  note is not a string; the buttons of the dialog run later, outside the \<^verbatim>\<open>try\<close>. A
  reminder is found only when \<^verbatim>\<open>self.reminders\<close> is a list: the elements of any other
  iterable are strings, and reading the \<^verbatim>\<open>'id'\<close> of a string raises.
\<close>

definition basename_raises :: "pyval \<Rightarrow> bool" where
  "basename_raises v = (truthy v \<and> (case v of PStr s \<Rightarrow> False | _ \<Rightarrow> True))"

definition edit_reminder :: "disk \<Rightarrow> selection \<Rightarrow> edit_form \<Rightarrow> app \<Rightarrow> outcome \<times> app" where
  "edit_reminder dk sel f st =
     (case sel of
        Row_id n \<Rightarrow>
          (case py_iter (reminders st) of
             None \<Rightarrow> (Returned, st)
           | Some xs \<Rightarrow>
               (case find_by_id n 0 xs of
                  Found i reminder \<Rightarrow>
                    if \<not> truthy reminder then (Returned, st)
                    else
                      (case reminder of
                         PDict r \<Rightarrow>
                           if map_of r ''title'' = None \<or> map_of r ''description'' = None
                              \<or> basename_raises (dict_get_default r ''voice_note'' (PStr []))
                           then (Returned, st)
                           else edit_dialog dk f i r xs st
                       | _ \<Rightarrow> (Returned, st))
                | _ \<Rightarrow> (Returned, st)))
      | _ \<Rightarrow> (Returned, st))"

section \<open>The poll tick\<close>

text \<open>
  The condition of \<^verbatim>\<open>check_reminders\<close>,
  \<^verbatim>\<open>reminder['active'] and reminder['date'] == current_date and reminder['time'] == current_time\<close>,
  evaluated from the left and stopping at the first false operand; \<open>None\<close> when reading a
  key raises.
\<close>

definition due :: "string \<Rightarrow> string \<Rightarrow> pyval \<Rightarrow> bool option" where
  "due current_date current_time r =
     (case getitem r ''active'' of
        None \<Rightarrow> None
      | Some a \<Rightarrow>
          if \<not> truthy a then Some False
          else
            (case getitem r ''date'' of
               None \<Rightarrow> None
             | Some d \<Rightarrow>
                 if \<not> eq_str d current_date then Some False
                 else
                   (case getitem r ''time'' of
                      None \<Rightarrow> None
                    | Some t \<Rightarrow> Some (eq_str t current_time))))"

text \<open>The arguments of the alert of a reminder, read from the left:
  \<^verbatim>\<open>f"REMINDER: {reminder['title']}"\<close>, \<^verbatim>\<open>reminder['description']\<close>, \<^verbatim>\<open>reminder['id']\<close>,
  \<^verbatim>\<open>reminder.get('voice_note')\<close>.\<close>

definition reminder_alert :: "env \<Rightarrow> pyval \<Rightarrow> alert option" where
  "reminder_alert e r =
     (case r of
        PDict kvs \<Rightarrow>
          (case map_of kvs ''title'' of
             None \<Rightarrow> None
           | Some title \<Rightarrow>
               (case map_of kvs ''description'' of
                  None \<Rightarrow> None
                | Some description \<Rightarrow>
                    (case map_of kvs ''id'' of
                       None \<Rightarrow> None
                     | Some ident \<Rightarrow>
                         Some \<lparr>al_title = ''REMINDER: '' @ format_value e title,
                               al_message = description,
                               al_item_id = ident,
                               al_custom_voice = dict_get kvs ''voice_note''\<rparr>)))
      | _ \<Rightarrow> None)"

text \<open>
  \<^verbatim>\<open>
  def check_reminders(self):
      now = datetime.now()
      current_date = now.strftime("%Y-%m-%d")
      current_time = now.strftime("%H:%M")
      for reminder in self.reminders:
          if reminder['active'] and reminder['date'] == current_date and reminder['time'] == current_time:
              self.show_fullscreen_alert(
                  f"REMINDER: {reminder['title']}",
                  reminder['description'],
                  reminder['id'],
                  reminder.get('voice_note')
              )
              reminder['active'] = False
              self.save_data()
              ...
  \<close>
  The loop walks the list from the left: \<open>seen\<close> are the reminders already visited (as
  the loop left them), \<open>r # todo\<close> the ones to come, so that the position of \<open>r\<close> is
  \<open>length seen\<close>. Beside the outcome and the state, the loop returns the calls of
  \<^verbatim>\<open>show_fullscreen_alert\<close> that returned, each with the position of its reminder.
\<close>

fun check_reminders_loop ::
  "env \<Rightarrow> string \<Rightarrow> string \<Rightarrow> pyval list \<Rightarrow> pyval list \<Rightarrow> (nat \<times> alert) list \<Rightarrow> app
    \<Rightarrow> outcome \<times> (nat \<times> alert) list \<times> app" where
  "check_reminders_loop e cd ct seen [] calls st = (Returned, calls, st)"
| "check_reminders_loop e cd ct seen (r # todo) calls st =
     (case due cd ct r of
        None \<Rightarrow> (Raised, calls, st)
      | Some False \<Rightarrow> check_reminders_loop e cd ct (seen @ [r]) todo calls st
      | Some True \<Rightarrow>
          (case reminder_alert e r of
             None \<Rightarrow> (Raised, calls, st)
           | Some a \<Rightarrow>
               if alert_raises e (length seen) then (Raised, calls, st)
               else
                 (case setitem r ''active'' (PBool False) of
                    None \<Rightarrow> (Raised, calls @ [(length seen, a)], st)
                  | Some r' \<Rightarrow>
                      (case save_data (disk_at e (length seen))
                              (st\<lparr>reminders := PList (seen @ r' # todo)\<rparr>) of
                         (Raised, st') \<Rightarrow> (Raised, calls @ [(length seen, a)], st')
                       | (Returned, st') \<Rightarrow>
                           check_reminders_loop e cd ct (seen @ [r']) todo
                             (calls @ [(length seen, a)]) st'))))"

definition check_reminders :: "env \<Rightarrow> datetime \<Rightarrow> app \<Rightarrow> outcome \<times> (nat \<times> alert) list \<times> app" where
  "check_reminders e now st =
     (case py_iter (reminders st) of
        None \<Rightarrow> (Raised, [], st)
      | Some xs \<Rightarrow> check_reminders_loop e (strftime_ymd now) (strftime_hm now) [] xs [] st)"

text \<open>
  \<^verbatim>\<open>
  def check_snoozed(self):
      now = datetime.now()
      current = now.strftime("%Y-%m-%d %H:%M")
      for item in self.snoozed_items:
          if item['active'] and item['trigger_time'] == current:
              self.show_fullscreen_alert(item['title'], item['message'], item['original_id'],
                                         item.get('custom_voice'))
              item['active'] = False
  \<close>
\<close>

definition snoozed_alert :: "snoozed \<Rightarrow> alert" where
  "snoozed_alert item =
     \<lparr>al_title = sn_title item, al_message = sn_message item,
      al_item_id = sn_original_id item, al_custom_voice = sn_custom_voice item\<rparr>"

fun check_snoozed_loop ::
  "env \<Rightarrow> string \<Rightarrow> snoozed list \<Rightarrow> snoozed list \<Rightarrow> (nat \<times> alert) list
    \<Rightarrow> outcome \<times> (nat \<times> alert) list \<times> snoozed list" where
  "check_snoozed_loop e current seen [] calls = (Returned, calls, seen)"
| "check_snoozed_loop e current seen (item # todo) calls =
     (if sn_active item \<and> sn_trigger_time item = current
      then if alert_raises e (length seen) then (Raised, calls, seen @ item # todo)
           else check_snoozed_loop e current (seen @ [item\<lparr>sn_active := False\<rparr>]) todo
                  (calls @ [(length seen, snoozed_alert item)])
      else check_snoozed_loop e current (seen @ [item]) todo calls)"

definition check_snoozed :: "env \<Rightarrow> datetime \<Rightarrow> app \<Rightarrow> outcome \<times> (nat \<times> alert) list \<times> app" where
  "check_snoozed e now st =
     (case check_snoozed_loop e (strftime_ymd_hm now) [] (snoozed_items st) [] of
        (oc, calls, items) \<Rightarrow> (oc, calls, st\<lparr>snoozed_items := items\<rparr>))"

text \<open>
  \<^verbatim>\<open>
  def monitor_loop(self):
      while self.running:
          try:
              self.check_reminders()
              self.check_snoozed()
          except:
              pass
          time.sleep(30)
  \<close>
  One period of the loop: what \<^verbatim>\<open>self.running\<close> is when the loop tests it, and the clock
  and the surroundings each of the two scans meets. The loop runs as long as the program
  does; it is modelled over the periods given to it, and reports for each period it ran
  how the body of the \<^verbatim>\<open>try\<close> ended and which alerts the two scans showed. Between
  two periods nothing else touches the state.
\<close>

record tick =
  tk_running :: bool
  tk_now_reminders :: datetime
  tk_env_reminders :: env
  tk_now_snoozed :: datetime
  tk_env_snoozed :: env

type_synonym report = "outcome \<times> (nat \<times> alert) list \<times> (nat \<times> alert) list"

definition tick_body :: "tick \<Rightarrow> app \<Rightarrow> report \<times> app" where
  "tick_body tk st =
     (case check_reminders (tk_env_reminders tk) (tk_now_reminders tk) st of
        (Raised, rcalls, st1) \<Rightarrow> ((Raised, rcalls, []), st1)
      | (Returned, rcalls, st1) \<Rightarrow>
          (case check_snoozed (tk_env_snoozed tk) (tk_now_snoozed tk) st1 of
             (oc, scalls, st2) \<Rightarrow> ((oc, rcalls, scalls), st2)))"

fun monitor_loop :: "tick list \<Rightarrow> app \<Rightarrow> report list \<times> app" where
  "monitor_loop [] st = ([], st)"
| "monitor_loop (tk # tks) st =
     (if tk_running tk
      then (case tick_body tk st of
              (rep, st1) \<Rightarrow>
                (case monitor_loop tks st1 of (reps, st2) \<Rightarrow> (rep # reps, st2)))
      else ([], st))"

section \<open>Snoozing\<close>

text \<open>
  \<^verbatim>\<open>
  def snooze_item(self, item_id, minutes, title, message, custom_voice):
      trigger_time = datetime.now() + timedelta(minutes=minutes)
      snoozed = {
          'id': int(time.time() * 1000),
          'original_id': item_id,
          'title': title,
          'message': message,
          'trigger_time': trigger_time.strftime("%Y-%m-%d %H:%M"),
          'custom_voice': custom_voice,
          'active': True
      }
      self.snoozed_items.append(snoozed)
      ...
  \<close>
  \<open>now\<close> is the reading \<^verbatim>\<open>datetime.now()\<close> and \<open>clock_ms\<close> the reading
  \<^verbatim>\<open>int(time.time() * 1000)\<close>.
\<close>

definition snooze_item ::
  "datetime \<Rightarrow> int \<Rightarrow> pyval \<Rightarrow> int \<Rightarrow> string \<Rightarrow> pyval \<Rightarrow> pyval \<Rightarrow> app \<Rightarrow> outcome \<times> app" where
  "snooze_item now clock_ms item_id minutes title message custom_voice st =
     (case add_minutes now minutes of
        None \<Rightarrow> (Raised, st)
      | Some trigger_time \<Rightarrow>
          (Returned,
           st\<lparr>snoozed_items := snoozed_items st @
                [\<lparr>sn_id = clock_ms, sn_original_id = item_id, sn_title = title,
                  sn_message = message, sn_trigger_time = strftime_ymd_hm trigger_time,
                  sn_custom_voice = custom_voice, sn_active = True\<rparr>]\<rparr>))"

section \<open>Sequences of operations\<close>

datatype op =
    Add disk int form
  | Edit disk selection edit_form
  | Delete disk selection
  | Check env datetime

fun apply_op :: "op \<Rightarrow> app \<Rightarrow> app" where
  "apply_op (Add dk clock_ms f) st = snd (add_reminder_gui dk clock_ms f st)"
| "apply_op (Edit dk sel f) st = snd (edit_reminder dk sel f st)"
| "apply_op (Delete dk sel) st = snd (delete_reminder dk sel st)"
| "apply_op (Check e now) st = snd (snd (check_reminders e now st))"

fun run_ops :: "op list \<Rightarrow> app \<Rightarrow> app" where
  "run_ops [] st = st"
| "run_ops (x # xs) st = run_ops xs (apply_op x st)"

section \<open>The identifiers in the store\<close>

text \<open>The ids of the stored reminders, in the order of the list, and the invariant of the
  specification: no id occurs twice.\<close>

fun ids_of :: "pyval list \<Rightarrow> pyval list" where
  "ids_of [] = []"
| "ids_of (r # rs) =
     (case getitem r ''id'' of None \<Rightarrow> ids_of rs | Some v \<Rightarrow> v # ids_of rs)"

definition stored_ids :: "app \<Rightarrow> pyval list" where
  "stored_ids st = (case reminders st of PList xs \<Rightarrow> ids_of xs | _ \<Rightarrow> [])"

definition unique_ids :: "app \<Rightarrow> bool" where
  "unique_ids st = distinct (stored_ids st)"

text \<open>Every \<^verbatim>\<open>Add\<close> of a sequence of operations meets a clock reading that is not an id
  of the store it is applied to.\<close>

fun fresh_clock :: "op \<Rightarrow> app \<Rightarrow> bool" where
  "fresh_clock (Add dk clock_ms f) st = (PInt clock_ms \<notin> set (stored_ids st))"
| "fresh_clock _ st = True"

fun fresh_clocks :: "op list \<Rightarrow> app \<Rightarrow> bool" where
  "fresh_clocks [] st = True"
| "fresh_clocks (x # xs) st = (fresh_clock x st \<and> fresh_clocks xs (apply_op x st))"

text \<open>The stored titles, for the specification's "title: string (non-empty)".\<close>

fun titles_of :: "pyval list \<Rightarrow> pyval list" where
  "titles_of [] = []"
| "titles_of (r # rs) =
     (case getitem r ''title'' of None \<Rightarrow> titles_of rs | Some v \<Rightarrow> v # titles_of rs)"

section \<open>Well-formed reminders\<close>

text \<open>A reminder as the specification's data model has it and as \<^verbatim>\<open>add_reminder_gui\<close>
  builds it: a dictionary with the seven keys (the voice note is optional).\<close>

definition reminder_keys :: "string list" where
  "reminder_keys =
     [''id'', ''title'', ''description'', ''date'', ''time'', ''priority'', ''active'']"

definition well_formed :: "pyval \<Rightarrow> bool" where
  "well_formed r = list_all (\<lambda>k. getitem r k \<noteq> None) reminder_keys"

section \<open>What a scan that returns has done\<close>

text \<open>
  Reference functions for the scan of \<^verbatim>\<open>check_reminders\<close>, used to state what the loop
  computes: a reminder with its \<^verbatim>\<open>'active'\<close> set to \<^verbatim>\<open>False\<close>, the list with every
  due reminder so changed, and one alert for each due reminder, in the order of the list,
  with its position counted from \<open>k\<close>.
\<close>

definition deactivated :: "pyval \<Rightarrow> pyval" where
  "deactivated r = (case setitem r ''active'' (PBool False) of None \<Rightarrow> r | Some r' \<Rightarrow> r')"

definition after_scan :: "string \<Rightarrow> string \<Rightarrow> pyval \<Rightarrow> pyval" where
  "after_scan cd ct r = (if due cd ct r = Some True then deactivated r else r)"

fun due_alerts :: "env \<Rightarrow> string \<Rightarrow> string \<Rightarrow> nat \<Rightarrow> pyval list \<Rightarrow> (nat \<times> alert) list" where
  "due_alerts e cd ct k [] = []"
| "due_alerts e cd ct k (r # rs) =
     (if due cd ct r = Some True
      then (case reminder_alert e r of
              None \<Rightarrow> due_alerts e cd ct (Suc k) rs
            | Some a \<Rightarrow> (k, a) # due_alerts e cd ct (Suc k) rs)
      else due_alerts e cd ct (Suc k) rs)"

text \<open>The calls a scan made for the list position \<open>i\<close>.\<close>

definition calls_for :: "nat \<Rightarrow> (nat \<times> alert) list \<Rightarrow> alert list" where
  "calls_for i calls = map snd (filter (\<lambda>p. fst p = i) calls)"

text \<open>The same for the scan of \<^verbatim>\<open>check_snoozed\<close>.\<close>

definition snooze_due :: "string \<Rightarrow> snoozed \<Rightarrow> bool" where
  "snooze_due current item = (sn_active item \<and> sn_trigger_time item = current)"

definition after_snooze_scan :: "string \<Rightarrow> snoozed \<Rightarrow> snoozed" where
  "after_snooze_scan current item =
     (if snooze_due current item then item\<lparr>sn_active := False\<rparr> else item)"

fun snoozed_alerts :: "string \<Rightarrow> nat \<Rightarrow> snoozed list \<Rightarrow> (nat \<times> alert) list" where
  "snoozed_alerts current k [] = []"
| "snoozed_alerts current k (item # items) =
     (if snooze_due current item
      then (k, snoozed_alert item) # snoozed_alerts current (Suc k) items
      else snoozed_alerts current (Suc k) items)"

section \<open>Where a scan ends\<close>

text \<open>
  What happens when the body of the loop of \<^verbatim>\<open>check_reminders\<close> runs for the reminder \<open>r\<close>
  at the list position \<open>j\<close>. The alert of \<open>r\<close> is shown and returns: \<open>r\<close> is due, its
  arguments can be read and the call does not raise. The body ends without an exception:
  \<open>r\<close> is found not due, or its alert returns and the write of the document succeeds. The
  first position of a list whose body raises is counted from the head of the list, the
  head being at position \<open>k\<close>.
\<close>

definition alert_returns :: "env \<Rightarrow> string \<Rightarrow> string \<Rightarrow> nat \<Rightarrow> pyval \<Rightarrow> bool" where
  "alert_returns e cd ct j r =
     (due cd ct r = Some True \<and> reminder_alert e r \<noteq> None \<and> \<not> alert_raises e j)"

definition handled :: "env \<Rightarrow> string \<Rightarrow> string \<Rightarrow> nat \<Rightarrow> pyval \<Rightarrow> bool" where
  "handled e cd ct j r =
     (due cd ct r = Some False \<or> (alert_returns e cd ct j r \<and> disk_at e j = Disk_ok))"

fun first_failure :: "env \<Rightarrow> string \<Rightarrow> string \<Rightarrow> nat \<Rightarrow> pyval list \<Rightarrow> nat option" where
  "first_failure e cd ct k [] = None"
| "first_failure e cd ct k (r # rs) =
     (if handled e cd ct k r then map_option Suc (first_failure e cd ct (Suc k) rs)
      else Some 0)"

text \<open>What the body has done for the reminder at which it raised: when the alert had
  returned, the call is made and the reminder is deactivated in memory (the write failed);
  otherwise nothing.\<close>

definition failing_call :: "env \<Rightarrow> string \<Rightarrow> string \<Rightarrow> nat \<Rightarrow> pyval \<Rightarrow> (nat \<times> alert) list" where
  "failing_call e cd ct j r =
     (if alert_returns e cd ct j r then due_alerts e cd ct j [r] else [])"

definition failing_item :: "env \<Rightarrow> string \<Rightarrow> string \<Rightarrow> nat \<Rightarrow> pyval \<Rightarrow> pyval" where
  "failing_item e cd ct j r = (if alert_returns e cd ct j r then deactivated r else r)"

text \<open>The same for \<^verbatim>\<open>check_snoozed\<close>, whose body raises only when the alert does.\<close>

definition snooze_fails :: "env \<Rightarrow> string \<Rightarrow> nat \<Rightarrow> snoozed \<Rightarrow> bool" where
  "snooze_fails e current j item = (snooze_due current item \<and> alert_raises e j)"

fun first_snooze_failure :: "env \<Rightarrow> string \<Rightarrow> nat \<Rightarrow> snoozed list \<Rightarrow> nat option" where
  "first_snooze_failure e current k [] = None"
| "first_snooze_failure e current k (item # items) =
     (if snooze_fails e current k item then Some 0
      else map_option Suc (first_snooze_failure e current (Suc k) items))"

section \<open>Concrete scenarios\<close>

text \<open>The clock reading 2024-06-01T14:30:12 of the specification's snooze scenario, and the
  minute ten minutes later.\<close>

definition june_first :: datetime where
  "june_first = \<lparr>dt_year = 2024, dt_month = 6, dt_day = 1, dt_hour = 14, dt_minute = 30,
     dt_second = 12, dt_microsecond = 0\<rparr>"

definition june_trigger :: datetime where
  "june_trigger = \<lparr>dt_year = 2024, dt_month = 6, dt_day = 1, dt_hour = 14, dt_minute = 40,
     dt_second = 0, dt_microsecond = 0\<rparr>"

text \<open>The specification's reminder "Call Bob" on 2024-06-01 at 14:30, entered in the form
  as 2:30 PM and added at the clock reading 1717250000000 to an application started without
  a document.\<close>

definition call_bob_form :: form where
  "call_bob_form =
     \<lparr>f_title = ''Call Bob'', f_desc = '''',
      f_date = \<lparr>dt_year = 2024, dt_month = 6, dt_day = 1, dt_hour = 0, dt_minute = 0,
                dt_second = 0, dt_microsecond = 0\<rparr>,
      f_hour = Some 2, f_minute = Some 30, f_ampm = ''PM'', f_priority = ''normal''\<rparr>"

definition call_bob :: "(string \<times> pyval) list" where
  "call_bob =
     [(''id'', PInt 1717250000000), (''title'', PStr ''Call Bob''), (''description'', PStr ''''),
      (''date'', PStr ''2024-06-01''), (''time'', PStr ''14:30''), (''priority'', PStr ''normal''),
      (''active'', PBool True)]"

definition call_bob_app :: app where
  "call_bob_app = (fresh_app Missing)\<lparr>reminders := PList [PDict call_bob]\<rparr>"

text \<open>The edit dialog with the title replaced by blanks, closed with "Save Changes".\<close>

definition blank_title_edit :: edit_form where
  "blank_title_edit =
     \<lparr>f_title = ''   '', f_desc = '''',
      f_date = \<lparr>dt_year = 2024, dt_month = 6, dt_day = 1, dt_hour = 0, dt_minute = 0,
                dt_second = 0, dt_microsecond = 0\<rparr>,
      f_hour = Some 2, f_minute = Some 30, f_ampm = ''PM'', f_priority = ''normal'',
      e_remove_voice = False, e_new_voice = None, e_save = True\<rparr>"

text \<open>Surroundings in which nothing fails, the clock reading 2024-06-01T14:30:00, and a
  period of the monitor loop at that reading.\<close>

definition quiet_env :: env where
  "quiet_env = \<lparr>alert_raises = (\<lambda>i. False), disk_at = (\<lambda>i. Disk_ok), str_of = (\<lambda>v. [])\<rparr>"

definition half_past_two :: datetime where
  "half_past_two = \<lparr>dt_year = 2024, dt_month = 6, dt_day = 1, dt_hour = 14, dt_minute = 30,
     dt_second = 0, dt_microsecond = 0\<rparr>"

definition quiet_tick :: tick where
  "quiet_tick = \<lparr>tk_running = True, tk_now_reminders = half_past_two,
     tk_env_reminders = quiet_env, tk_now_snoozed = half_past_two, tk_env_snoozed = quiet_env\<rparr>"

text \<open>The alert of "Call Bob", and the application after that alert.\<close>

definition call_bob_alert :: alert where
  "call_bob_alert =
     \<lparr>al_title = ''REMINDER: Call Bob'', al_message = PStr '''',
      al_item_id = PInt 1717250000000, al_custom_voice = PNone\<rparr>"

definition call_bob_done :: "(string \<times> pyval) list" where
  "call_bob_done =
     [(''id'', PInt 1717250000000), (''title'', PStr ''Call Bob''), (''description'', PStr ''''),
      (''date'', PStr ''2024-06-01''), (''time'', PStr ''14:30''), (''priority'', PStr ''normal''),
      (''active'', PBool False)]"

definition call_bob_app_done :: app where
  "call_bob_app_done =
     (fresh_app (Doc (PDict [(''reminders'', PList [PDict call_bob_done]), (''alarms'', PList [])])))
       \<lparr>reminders := PList [PDict call_bob_done]\<rparr>"

text \<open>A document whose first reminder has no title, followed by "Call Bob", and the
  application started on it.\<close>

definition untitled :: "(string \<times> pyval) list" where
  "untitled =
     [(''id'', PInt 1717240000000), (''date'', PStr ''2024-06-01''), (''time'', PStr ''14:30''),
      (''active'', PBool True)]"

definition untitled_document :: pyval where
  "untitled_document =
     PDict [(''reminders'', PList [PDict untitled, PDict call_bob]), (''alarms'', PList [])]"

definition untitled_app :: app where
  "untitled_app =
     (fresh_app (Doc untitled_document))\<lparr>reminders := PList [PDict untitled, PDict call_bob]\<rparr>"

text \<open>A second form, submitted at the same clock reading as "Call Bob".\<close>

definition pay_rent_form :: form where
  "pay_rent_form = call_bob_form\<lparr>f_title := ''Pay rent''\<rparr>"

definition pay_rent :: "(string \<times> pyval) list" where
  "pay_rent =
     [(''id'', PInt 1717250000000), (''title'', PStr ''Pay rent''), (''description'', PStr ''''),
      (''date'', PStr ''2024-06-01''), (''time'', PStr ''14:30''), (''priority'', PStr ''normal''),
      (''active'', PBool True)]"

text \<open>"Call Bob" and "Pay rent" in one store, both due at 14:30, and surroundings in which
  the alert of the first list position raises.\<close>

definition two_due_app :: app where
  "two_due_app = (fresh_app Missing)\<lparr>reminders := PList [PDict call_bob, PDict pay_rent]\<rparr>"

definition first_alert_fails :: env where
  "first_alert_fails = quiet_env\<lparr>alert_raises := (\<lambda>i. i = 0)\<rparr>"

text \<open>"Call Bob", the reminder without a title and "Pay rent" in one store, all three with
  the date and time 2024-06-01 14:30.\<close>

definition untitled_between_app :: app where
  "untitled_between_app =
     (fresh_app Missing)\<lparr>reminders := PList [PDict call_bob, PDict untitled, PDict pay_rent]\<rparr>"

text \<open>"Call Bob" snoozed until 14:30: the one item of the list of snoozed alerts.\<close>

definition snoozed_bob :: snoozed where
  "snoozed_bob =
     \<lparr>sn_id = 1717249812000, sn_original_id = PInt 1717250000000,
      sn_title = ''REMINDER: Call Bob'', sn_message = PStr '''',
      sn_trigger_time = ''2024-06-01 14:30'', sn_custom_voice = PNone, sn_active = True\<rparr>"

definition snoozed_app :: app where
  "snoozed_app = (fresh_app Missing)\<lparr>snoozed_items := [snoozed_bob]\<rparr>"

text \<open>A period of the monitor loop one minute late, at 2024-06-01T14:31:00.\<close>

definition late_tick :: tick where
  "late_tick = quiet_tick\<lparr>tk_now_reminders := half_past_two\<lparr>dt_minute := 31\<rparr>,
     tk_now_snoozed := half_past_two\<lparr>dt_minute := 31\<rparr>\<rparr>"

section \<open>Numbers and strings: lemmas\<close>

lemma dec_lt10: "n < 10 \<Longrightarrow> dec n = [digit n]"
  by (simp add: dec.simps)

lemma dec_lt100: "10 \<le> n \<Longrightarrow> n < 100 \<Longrightarrow> dec n = [digit (n div 10), digit n]"
  by (subst dec.simps) (simp add: dec_lt10)

lemma digit_mod: "digit (n mod 10) = digit n"
  by (simp add: digit_def)

lemma zfill2_dec: "n < 100 \<Longrightarrow> zfill 2 (dec n) = [digit (n div 10), digit (n mod 10)]"
proof (cases "n < 10")
  case True
  then show ?thesis by (simp add: dec_lt10 zfill_def digit_def)
next
  case False
  assume "n < 100"
  with False show ?thesis by (simp add: dec_lt100 zfill_def digit_mod)
qed

lemma digit_code: "n < 10 \<Longrightarrow> (of_char (digit n) :: nat) = 48 + n"
proof -
  assume "n < 10"
  then have "n \<in> {0, 1, 2, 3, 4, 5, 6, 7, 8, 9}" by auto
  then show ?thesis by (auto simp: digit_def)
qed

lemma digit_inj: "a < 10 \<Longrightarrow> b < 10 \<Longrightarrow> digit a = digit b \<Longrightarrow> a = b"
proof -
  assume a: "a < 10" and b: "b < 10" and e: "digit a = digit b"
  from e have "(of_char (digit a) :: nat) = of_char (digit b)" by (rule arg_cong)
  then have "48 + a = 48 + b" by (simp only: digit_code [OF a] digit_code [OF b])
  then show "a = b" by simp
qed

lemma hhmm_inj:
  assumes "H < 100" "M < 100" "H' < 100" "M' < 100" "hhmm H M = hhmm H' M'"
  shows "H = H' \<and> M = M'"
proof -
  from assms have d: "H div 10 = H' div 10" "H mod 10 = H' mod 10"
     "M div 10 = M' div 10" "M mod 10 = M' mod 10"
    by (auto simp: hhmm_def intro!: digit_inj)
  from d(1,2) have "H = H'" by (metis div_mult_mod_eq)
  moreover from d(3,4) have "M = M'" by (metis div_mult_mod_eq)
  ultimately show ?thesis by simp
qed

lemma format_02d_nat: "0 \<le> i \<Longrightarrow> i < 100 \<Longrightarrow> format_02d i = [digit (nat i div 10), digit (nat i mod 10)]"
  by (simp add: format_02d_def zfill2_dec)

lemma get_24hour_time_hhmm:
  assumes "1 \<le> h" "h \<le> 12" "0 \<le> m" "m \<le> 59" "ampm = ''AM'' \<or> ampm = ''PM''"
  shows "get_24hour_time h m ampm = hhmm (spec_hour24 h ampm) (nat m)"
  using assms
  by (auto simp: get_24hour_time_def spec_hour24_def hhmm_def format_02d_nat Let_def nat_add_distrib)

lemma spec_hour24_lt: "1 \<le> h \<Longrightarrow> h \<le> 12 \<Longrightarrow> spec_hour24 h ampm < 24"
  by (auto simp: spec_hour24_def)

lemma spec_hour24_inj:
  assumes "1 \<le> h" "h \<le> 12" "1 \<le> h'" "h' \<le> 12" "a \<in> {''AM'', ''PM''}" "a' \<in> {''AM'', ''PM''}"
    "spec_hour24 h a = spec_hour24 h' a'"
  shows "h = h' \<and> a = a'"
  using assms by (auto simp: spec_hour24_def split: if_splits)

lemma spec_hour24_surj:
  assumes "H < 24"
  shows "\<exists>h a. 1 \<le> h \<and> h \<le> 12 \<and> a \<in> {''AM'', ''PM''} \<and> spec_hour24 h a = H"
proof -
  consider "H = 0" | "1 \<le> H \<and> H \<le> 11" | "H = 12" | "13 \<le> H \<and> H \<le> 23"
    using assms by linarith
  then show ?thesis
  proof cases
    case 1
    then have "spec_hour24 12 ''AM'' = H" by (simp add: spec_hour24_def)
    then show ?thesis by (intro exI [of _ 12] exI [of _ "''AM''"]) simp
  next
    case 2
    then have "spec_hour24 (int H) ''AM'' = H" by (simp add: spec_hour24_def)
    with 2 show ?thesis by (intro exI [of _ "int H"] exI [of _ "''AM''"]) simp
  next
    case 3
    then have "spec_hour24 12 ''PM'' = H" by (simp add: spec_hour24_def)
    then show ?thesis by (intro exI [of _ 12] exI [of _ "''PM''"]) simp
  next
    case 4
    then have "nat (int H - 12) + 12 = H" by linarith
    with 4 have "spec_hour24 (int H - 12) ''PM'' = H" by (simp add: spec_hour24_def)
    with 4 show ?thesis by (intro exI [of _ "int H - 12"] exI [of _ "''PM''"]) simp
  qed
qed

text \<open>
  Claim C10. For every hour from 1 to 12, minute from 0 to 59 and meridiem AM or PM,
  \<^verbatim>\<open>get_24hour_time\<close> returns \<open>HH:MM\<close>, two digits each, where the minute is the input
  and the hour is below 24: 12 AM gives 00, 12 PM gives 12, another PM hour \<open>h\<close> gives
  \<open>h + 12\<close>, another AM hour itself. The conversion is a bijection from these clock
  readings onto the minutes of a day written \<open>HH:MM\<close>.
\<close>

theorem get_24hour_time_correct:
  "(\<forall>h m ampm. 1 \<le> h \<and> h \<le> 12 \<and> 0 \<le> m \<and> m \<le> 59 \<and> (ampm = ''AM'' \<or> ampm = ''PM'') \<longrightarrow>
      get_24hour_time h m ampm = hhmm (spec_hour24 h ampm) (nat m) \<and> spec_hour24 h ampm < 24)
   \<and> bij_betw (\<lambda>(h, m, ampm). get_24hour_time h m ampm) clock12 clock24"
proof (intro conjI allI impI)
  fix h m :: int and ampm
  assume a: "1 \<le> h \<and> h \<le> 12 \<and> 0 \<le> m \<and> m \<le> 59 \<and> (ampm = ''AM'' \<or> ampm = ''PM'')"
  then show "get_24hour_time h m ampm = hhmm (spec_hour24 h ampm) (nat m)"
    by (intro get_24hour_time_hhmm) simp_all
  from a show "spec_hour24 h ampm < 24" by (intro spec_hour24_lt) simp_all
next
  let ?f = "\<lambda>(h, m, ampm). get_24hour_time h m ampm"
  have eq: "?f x = hhmm (spec_hour24 (fst x) (snd (snd x))) (nat (fst (snd x)))"
    if "x \<in> clock12" for x
    using that by (cases x) (auto simp: clock12_def intro!: get_24hour_time_hhmm)
  have inj: "inj_on ?f clock12"
  proof (rule inj_onI)
    fix x y assume x: "x \<in> clock12" and y: "y \<in> clock12" and e: "?f x = ?f y"
    obtain h m a where xd: "x = (h, m, a)" by (cases x)
    obtain h' m' a' where yd: "y = (h', m', a')" by (cases y)
    from x xd have bx: "1 \<le> h" "h \<le> 12" "0 \<le> m" "m \<le> 59" "a \<in> {''AM'', ''PM''}"
      by (auto simp: clock12_def)
    from y yd have bys: "1 \<le> h'" "h' \<le> 12" "0 \<le> m'" "m' \<le> 59" "a' \<in> {''AM'', ''PM''}"
      by (auto simp: clock12_def)
    from e eq [OF x] eq [OF y] xd yd
    have "hhmm (spec_hour24 h a) (nat m) = hhmm (spec_hour24 h' a') (nat m')" by simp
    moreover have "spec_hour24 h a < 100" "spec_hour24 h' a' < 100"
      using spec_hour24_lt [OF bx(1,2), of a] spec_hour24_lt [OF bys(1,2), of a'] by simp_all
    moreover have "nat m < 100" "nat m' < 100" using bx bys by simp_all
    ultimately have "spec_hour24 h a = spec_hour24 h' a' \<and> nat m = nat m'"
      by (intro hhmm_inj) simp_all
    then have "h = h' \<and> a = a'" and "m = m'"
      using spec_hour24_inj [OF bx(1,2) bys(1,2) bx(5) bys(5)] bx bys by simp_all
    with xd yd show "x = y" by simp
  qed
  have img: "?f ` clock12 = clock24"
  proof (intro set_eqI iffI)
    fix s assume "s \<in> ?f ` clock12"
    then obtain x where x: "x \<in> clock12" and s: "s = ?f x" by blast
    obtain h m a where xd: "x = (h, m, a)" by (cases x)
    from x xd have b: "1 \<le> h" "h \<le> 12" "0 \<le> m" "m \<le> 59" by (auto simp: clock12_def)
    have "spec_hour24 h a < 24" using b by (intro spec_hour24_lt)
    moreover have "nat m < 60" using b by simp
    moreover have "s = hhmm (spec_hour24 h a) (nat m)" using s eq [OF x] xd by simp
    ultimately show "s \<in> clock24" unfolding clock24_def by blast
  next
    fix s assume "s \<in> clock24"
    then obtain H M where HM: "H < 24" "M < 60" and s: "s = hhmm H M"
      unfolding clock24_def by blast
    from spec_hour24_surj [OF HM(1)] obtain h a
      where ha: "1 \<le> h" "h \<le> 12" "a \<in> {''AM'', ''PM''}" "spec_hour24 h a = H" by blast
    have m: "(h, int M, a) \<in> clock12" using ha HM by (auto simp: clock12_def)
    from eq [OF m] ha s have "?f (h, int M, a) = s" by simp
    with m show "s \<in> ?f ` clock12" by blast
  qed
  from inj img show "bij_betw ?f clock12 clock24" by (simp add: bij_betw_def)
qed

theorem get_24hour_time_correct_witness:
  "get_24hour_time 12 5 ''AM'' = ''00:05'' \<and> get_24hour_time 12 0 ''PM'' = ''12:00''
   \<and> get_24hour_time 7 45 ''PM'' = ''19:45'' \<and> get_24hour_time 9 30 ''AM'' = ''09:30''"
proof -
  from get_24hour_time_correct
  have "get_24hour_time 12 5 ''AM'' = hhmm (spec_hour24 12 ''AM'') (nat 5)"
    and "get_24hour_time 12 0 ''PM'' = hhmm (spec_hour24 12 ''PM'') (nat 0)"
    and "get_24hour_time 7 45 ''PM'' = hhmm (spec_hour24 7 ''PM'') (nat 45)"
    and "get_24hour_time 9 30 ''AM'' = hhmm (spec_hour24 9 ''AM'') (nat 30)"
    by simp_all
  then show ?thesis by (simp add: hhmm_def spec_hour24_def digit_def)
qed

section \<open>Snoozing: lemmas\<close>

lemma minutes_div_day:
  fixes K s :: int
  assumes "0 \<le> s" "s < 60"
  shows "(K * 60 + s) div 86400 = K div 1440"
proof -
  have "(K * 60 + s) div (60 * 1440) = ((K * 60 + s) div 60) div 1440"
    by (rule zdiv_zmult2_eq) simp
  moreover have "(K * 60 + s) div 60 = K" using assms by simp
  ultimately show ?thesis by simp
qed

lemma minutes_mod_day:
  fixes K s :: int
  assumes "0 \<le> s" "s < 60"
  shows "(K * 60 + s) mod 86400 = (K mod 1440) * 60 + s"
proof -
  have "(K * 60 + s) mod (60 * 1440) = 60 * ((K * 60 + s) div 60 mod 1440) + (K * 60 + s) mod 60"
    by (rule zmod_zmult2_eq) simp
  moreover have "(K * 60 + s) div 60 = K" "(K * 60 + s) mod 60 = s" using assms by simp_all
  ultimately show ?thesis by simp
qed

lemma seconds_hour:
  fixes k s :: nat
  assumes "s < 60"
  shows "(k * 60 + s) div 3600 = k div 60" and "((k * 60 + s) mod 3600) div 60 = k mod 60"
proof -
  have d: "(k * 60 + s) div 60 = k" and m: "(k * 60 + s) mod 60 = s" using assms by simp_all
  have "(k * 60 + s) div (60 * 60) = ((k * 60 + s) div 60) div 60"
    by (rule div_mult2_eq)
  with d show "(k * 60 + s) div 3600 = k div 60" by simp
  have "(k * 60 + s) mod (60 * 60) = 60 * ((k * 60 + s) div 60 mod 60) + (k * 60 + s) mod 60"
    by (rule mod_mult2_eq)
  with d m have "(k * 60 + s) mod 3600 = (k mod 60) * 60 + s" by simp
  then show "((k * 60 + s) mod 3600) div 60 = k mod 60" using assms by simp
qed

lemma add_minutes_seconds:
  assumes "dt_second t < 60"
  shows "map_option strftime_ymd_hm (add_minutes (t\<lparr>dt_second := 0, dt_microsecond := u\<rparr>) m)
       = map_option strftime_ymd_hm (add_minutes t m)"
proof -
  define K where "K = int (dt_hour t) * 60 + int (dt_minute t) + m"
  define s where "s = int (dt_second t)"
  define T where "T = int (dt_hour t) * 3600 + int (dt_minute t) * 60 + int (dt_second t) + m * 60"
  define T0 where "T0 = int (dt_hour t) * 3600 + int (dt_minute t) * 60 + m * 60"
  have s: "0 \<le> s" "s < 60" using assms by (simp_all add: s_def)
  have tot: "T = K * 60 + s" by (simp add: T_def K_def s_def algebra_simps)
  have tot0: "T0 = K * 60 + 0" by (simp add: T0_def K_def algebra_simps)
  define k where "k = nat (K mod 1440)"
  have k: "K mod 1440 = int k" by (simp add: k_def)
  have secs: "nat (T mod 86400) = k * 60 + dt_second t"
    unfolding tot using minutes_mod_day [OF s, of K]
    by (simp add: k s_def nat_add_distrib nat_mult_distrib)
  have secs0: "nat (T0 mod 86400) = k * 60 + 0"
    unfolding tot0 using minutes_mod_day [of 0 K] by (simp add: k nat_mult_distrib)
  have days: "T div 86400 = T0 div 86400"
    unfolding tot tot0 using minutes_div_day [OF s, of K] minutes_div_day [of 0 K] by simp
  have hours: "nat (T mod 86400) div 3600 = nat (T0 mod 86400) div 3600"
    unfolding secs secs0 using seconds_hour(1) [OF assms, of k] seconds_hour(1) [of 0 k] by simp
  have mins: "nat (T mod 86400) mod 3600 div 60 = nat (T0 mod 86400) mod 3600 div 60"
    unfolding secs secs0 using seconds_hour(2) [OF assms, of k] seconds_hour(2) [of 0 k] by simp
  have a: "add_minutes t m =
     (if 0 < int (ymd2ord (dt_year t) (dt_month t) (dt_day t)) + T div 86400
        \<and> int (ymd2ord (dt_year t) (dt_month t) (dt_day t)) + T div 86400 \<le> max_ordinal
      then (case ord2ymd (nat (int (ymd2ord (dt_year t) (dt_month t) (dt_day t)) + T div 86400)) of
              (y, mo, d) \<Rightarrow>
                Some \<lparr>dt_year = y, dt_month = mo, dt_day = d,
                      dt_hour = nat (T mod 86400) div 3600,
                      dt_minute = nat (T mod 86400) mod 3600 div 60,
                      dt_second = nat (T mod 86400) mod 3600 mod 60,
                      dt_microsecond = dt_microsecond t\<rparr>)
      else None)"
    by (simp add: add_minutes_def Let_def T_def)
  have b: "add_minutes (t\<lparr>dt_second := 0, dt_microsecond := u\<rparr>) m =
     (if 0 < int (ymd2ord (dt_year t) (dt_month t) (dt_day t)) + T0 div 86400
        \<and> int (ymd2ord (dt_year t) (dt_month t) (dt_day t)) + T0 div 86400 \<le> max_ordinal
      then (case ord2ymd (nat (int (ymd2ord (dt_year t) (dt_month t) (dt_day t)) + T0 div 86400)) of
              (y, mo, d) \<Rightarrow>
                Some \<lparr>dt_year = y, dt_month = mo, dt_day = d,
                      dt_hour = nat (T0 mod 86400) div 3600,
                      dt_minute = nat (T0 mod 86400) mod 3600 div 60,
                      dt_second = nat (T0 mod 86400) mod 3600 mod 60,
                      dt_microsecond = u\<rparr>)
      else None)"
    by (simp add: add_minutes_def Let_def T0_def)
  show ?thesis
    unfolding a b days hours mins
    by (simp add: strftime_ymd_hm_def strftime_ymd_def strftime_hm_def split: prod.splits)
qed

lemma truncated_trigger:
  assumes "dt_second now < 60" and "add_minutes (truncate_to_minute now) minutes = Some t"
  shows "\<exists>t'. add_minutes now minutes = Some t' \<and> strftime_ymd_hm t' = strftime_ymd_hm t"
proof -
  from add_minutes_seconds [OF assms(1), of 0 minutes] assms(2)
  have "map_option strftime_ymd_hm (add_minutes now minutes) = Some (strftime_ymd_hm t)"
    by (simp add: truncate_to_minute_def)
  then show ?thesis by (cases "add_minutes now minutes") auto
qed

text \<open>
  Claim C2. A snooze of \<open>minutes\<close> minutes at the clock reading \<open>now\<close> appends a snoozed
  item whose \<^verbatim>\<open>trigger_time\<close> is \<open>now\<close> truncated to the minute plus \<open>minutes\<close> minutes,
  written \<^verbatim>\<open>"%Y-%m-%d %H:%M"\<close>: the seconds of \<open>now\<close> play no part. (The witness is the
  specification's scenario: ten minutes at 2024-06-01T14:30:12 give
  \<^verbatim>\<open>"2024-06-01 14:40"\<close>.)
\<close>

theorem snooze_item_trigger_time:
  assumes "dt_second now < 60"
    and "add_minutes (truncate_to_minute now) minutes = Some t"
  shows "snooze_item now clock_ms item_id minutes title message custom_voice st =
     (Returned,
      st\<lparr>snoozed_items := snoozed_items st @
           [\<lparr>sn_id = clock_ms, sn_original_id = item_id, sn_title = title,
             sn_message = message, sn_trigger_time = strftime_ymd_hm t,
             sn_custom_voice = custom_voice, sn_active = True\<rparr>]\<rparr>)"
proof -
  from truncated_trigger [OF assms] obtain t'
    where "add_minutes now minutes = Some t'" "strftime_ymd_hm t' = strftime_ymd_hm t" by blast
  then show ?thesis by (simp add: snooze_item_def)
qed

lemma june_ordinal: "ymd2ord 2024 6 1 = 739038"
  by (simp add: ymd2ord_def days_before_year_def days_before_month_def
      days_before_month_table_def is_leap_def)

lemma june_date: "ord2ymd 739038 = (2024, 6, 1)"
  by (simp add: ord2ymd_def Let_def days_before_month_table_def days_in_month_table_def)

lemma june_add: "add_minutes (truncate_to_minute june_first) 10 = Some june_trigger"
  unfolding add_minutes_def truncate_to_minute_def june_first_def june_trigger_def
  by (simp add: Let_def june_ordinal [simplified] june_date [simplified] max_ordinal_def)

lemma june_fmt: "strftime_ymd_hm june_trigger = ''2024-06-01 14:40''"
  by (simp add: june_trigger_def strftime_ymd_hm_def strftime_ymd_def strftime_hm_def
      zfill_def dec.simps digit_def)

theorem snooze_item_trigger_time_witness:
  "dt_second june_first < 60 \<and>
   map sn_trigger_time (snoozed_items (snd (snooze_item june_first 1717252212000 (PInt 1717250000000) 10
      ''REMINDER: Call Bob'' (PStr []) PNone (fresh_app Missing)))) = [''2024-06-01 14:40'']"
proof -
  have s: "dt_second june_first < 60" by (simp add: june_first_def)
  from snooze_item_trigger_time [OF s june_add] s
  show ?thesis by (simp add: june_fmt fresh_app_def)
qed

section \<open>Loading: lemmas\<close>

text \<open>
  Claim C6. When the document is missing or malformed (it cannot be opened or parsed, or
  what it holds is not an object), starting the application yields an empty store: the
  lists of reminders and of alarms are empty. \<^verbatim>\<open>load_data\<close> never raises, whatever the
  document and the state.
\<close>

theorem load_data_missing_or_malformed:
  "(f = Missing \<or> f = Malformed \<or> (\<exists>v. f = Doc v \<and> (\<forall>kvs. v \<noteq> PDict kvs))
      \<longrightarrow> (\<exists>st. app_init f = (Returned, st) \<and> reminders st = PList [] \<and> alarms st = PList []))
   \<and> fst (load_data st0) = Returned"
  by (auto simp: app_init_def load_data_def load_data_body_def swallow_def fresh_app_def
      split: fcontent.splits pyval.splits)

theorem load_data_missing_or_malformed_witness:
  "(\<exists>st. app_init Missing = (Returned, st) \<and> reminders st = PList [] \<and> alarms st = PList [])
   \<and> (\<exists>st. app_init Malformed = (Returned, st) \<and> reminders st = PList [] \<and> alarms st = PList [])
   \<and> (\<exists>st. app_init (Doc (PList [])) = (Returned, st) \<and> reminders st = PList [] \<and> alarms st = PList [])"
  using load_data_missing_or_malformed [of Missing] load_data_missing_or_malformed [of Malformed]
    load_data_missing_or_malformed [of "Doc (PList [])"]
  by simp

section \<open>The scan of the reminders: lemmas\<close>

lemma save_data_fields [simp]:
  "reminders (snd (save_data dk st)) = reminders st"
  "alarms (snd (save_data dk st)) = alarms st"
  "snoozed_items (snd (save_data dk st)) = snoozed_items st"
  "pending_voice_note (snd (save_data dk st)) = pending_voice_note st"
  by (cases dk; simp add: save_data_def)+

lemma save_data_eq:
  "save_data dk st = (oc, st') \<Longrightarrow>
     reminders st' = reminders st \<and> alarms st' = alarms st
     \<and> snoozed_items st' = snoozed_items st \<and> pending_voice_note st' = pending_voice_note st"
  using save_data_fields [of dk st] by simp

lemma due_True_dict: "due cd ct r = Some True \<Longrightarrow> \<exists>kvs. r = PDict kvs"
  by (cases r) (simp_all add: due_def)

lemma due_True_iff:
  "due cd ct r = Some True \<longleftrightarrow>
     (\<exists>a. getitem r ''active'' = Some a \<and> truthy a)
     \<and> getitem r ''date'' = Some (PStr cd) \<and> getitem r ''time'' = Some (PStr ct)"
proof -
  have e: "eq_str v s \<longleftrightarrow> v = PStr s" for v s by (cases v) auto
  show ?thesis by (auto simp: due_def e split: option.splits)
qed

lemma map_of_dict_set_same: "map_of (dict_set k v kvs) k = Some v"
  by (induction kvs) auto

lemma map_of_dict_set_other: "k' \<noteq> k \<Longrightarrow> map_of (dict_set k v kvs) k' = map_of kvs k'"
  by (induction kvs) auto

lemma deactivated_dict: "deactivated (PDict kvs) = PDict (dict_set ''active'' (PBool False) kvs)"
  by (simp add: deactivated_def)

lemma due_deactivated: "due cd ct r = Some True \<Longrightarrow> due cd' ct' (deactivated r) = Some False"
proof -
  assume "due cd ct r = Some True"
  then obtain kvs where "r = PDict kvs" using due_True_dict by blast
  then show ?thesis by (simp add: deactivated_dict due_def map_of_dict_set_same)
qed

lemma loop_returned:
  "check_reminders_loop e cd ct seen todo calls st = (Returned, calls', st')
   \<Longrightarrow> reminders st = PList (seen @ todo)
   \<Longrightarrow> reminders st' = PList (seen @ map (after_scan cd ct) todo)
       \<and> calls' = calls @ due_alerts e cd ct (length seen) todo
       \<and> (\<forall>r\<in>set todo. due cd ct r = Some True \<longrightarrow> reminder_alert e r \<noteq> None)"
proof (induction todo arbitrary: seen calls st)
  case Nil
  then show ?case by simp
next
  case (Cons r todo)
  show ?case
  proof (cases "due cd ct r")
    case None
    with Cons.prems show ?thesis by simp
  next
    case (Some b)
    show ?thesis
    proof (cases b)
      case False
      with Some Cons.prems
      have run: "check_reminders_loop e cd ct (seen @ [r]) todo calls st = (Returned, calls', st')"
        and rs: "reminders st = PList ((seen @ [r]) @ todo)" by simp_all
      from Cons.IH [OF run rs] Some False show ?thesis by (simp add: after_scan_def)
    next
      case True
      from Some True have d: "due cd ct r = Some True" by simp
      then obtain kvs where r: "r = PDict kvs" using due_True_dict by blast
      from Cons.prems(1) d obtain a where a: "reminder_alert e r = Some a"
        by (cases "reminder_alert e r") simp_all
      from Cons.prems(1) d a have nr: "\<not> alert_raises e (length seen)"
        by (auto split: if_splits)
      define r' where "r' = deactivated r"
      have set: "setitem r ''active'' (PBool False) = Some r'" by (simp add: r r'_def deactivated_dict)
      define st1 where "st1 = st\<lparr>reminders := PList (seen @ r' # todo)\<rparr>"
      obtain oc st2 where sv: "save_data (disk_at e (length seen)) st1 = (oc, st2)"
        by (cases "save_data (disk_at e (length seen)) st1")
      from Cons.prems(1) d a nr set sv have oc: "oc = Returned"
        by (cases oc) (simp_all add: st1_def)
      from Cons.prems(1) d a nr set sv oc
      have run: "check_reminders_loop e cd ct (seen @ [r']) todo (calls @ [(length seen, a)]) st2
                   = (Returned, calls', st')"
        by (simp add: st1_def)
      from save_data_eq [OF sv] have rs: "reminders st2 = PList ((seen @ [r']) @ todo)"
        by (simp add: st1_def)
      from Cons.IH [OF run rs] d a show ?thesis by (simp add: after_scan_def r'_def)
    qed
  qed
qed


lemma loop_other_fields:
  "check_reminders_loop e cd ct seen todo calls st = (oc, calls', st')
   \<Longrightarrow> alarms st' = alarms st \<and> snoozed_items st' = snoozed_items st
       \<and> pending_voice_note st' = pending_voice_note st"
proof (induction todo arbitrary: seen calls st)
  case Nil
  then show ?case by simp
next
  case (Cons r todo)
  show ?case
  proof (cases "due cd ct r")
    case None
    with Cons.prems show ?thesis by simp
  next
    case (Some b)
    show ?thesis
    proof (cases b)
      case False
      with Some Cons.prems Cons.IH show ?thesis by simp
    next
      case True
      from Some True have d: "due cd ct r = Some True" by simp
      show ?thesis
      proof (cases "reminder_alert e r")
        case None
        with d Cons.prems show ?thesis by simp
      next
        case a: (Some a)
        show ?thesis
        proof (cases "alert_raises e (length seen)")
          case True
          with d a Cons.prems show ?thesis by simp
        next
          case nr: False
          show ?thesis
          proof (cases "setitem r ''active'' (PBool False)")
            case None
            with d a nr Cons.prems show ?thesis by simp
          next
            case r': (Some r')
            define st1 where "st1 = st\<lparr>reminders := PList (seen @ r' # todo)\<rparr>"
            obtain oc1 st2 where sv: "save_data (disk_at e (length seen)) st1 = (oc1, st2)"
              by (cases "save_data (disk_at e (length seen)) st1")
            from save_data_eq [OF sv]
            have f: "alarms st2 = alarms st" "snoozed_items st2 = snoozed_items st"
              "pending_voice_note st2 = pending_voice_note st" by (simp_all add: st1_def)
            show ?thesis
            proof (cases oc1)
              case Raised
              with d a nr r' sv Cons.prems f show ?thesis by (auto simp: st1_def)
            next
              case Returned
              with d a nr r' sv Cons.prems
              have "check_reminders_loop e cd ct (seen @ [r']) todo (calls @ [(length seen, a)]) st2
                      = (oc, calls', st')" by (simp add: st1_def)
              from Cons.IH [OF this] f show ?thesis by simp
            qed
          qed
        qed
      qed
    qed
  qed
qed

lemma loop_prefix:
  "check_reminders_loop e cd ct seen todo calls st = (oc, calls', st')
   \<Longrightarrow> reminders st = PList (seen @ todo)
   \<Longrightarrow> \<exists>k\<le>length todo.
         reminders st' = PList (seen @ map (after_scan cd ct) (take k todo) @ drop k todo)
       \<and> calls' = calls @ due_alerts e cd ct (length seen) (take k todo)
       \<and> (oc = Returned \<longrightarrow> k = length todo)"
proof (induction todo arbitrary: seen calls st)
  case Nil
  then show ?case by simp
next
  case (Cons r todo)
  show ?case
  proof (cases "due cd ct r")
    case None
    with Cons.prems show ?thesis by (intro exI [of _ 0]) simp
  next
    case (Some b)
    show ?thesis
    proof (cases b)
      case False
      with Some Cons.prems
      have run: "check_reminders_loop e cd ct (seen @ [r]) todo calls st = (oc, calls', st')"
        and rs: "reminders st = PList ((seen @ [r]) @ todo)" by simp_all
      from Cons.IH [OF run rs] obtain k where k: "k \<le> length todo"
        "reminders st' = PList ((seen @ [r]) @ map (after_scan cd ct) (take k todo) @ drop k todo)"
        "calls' = calls @ due_alerts e cd ct (length (seen @ [r])) (take k todo)"
        "oc = Returned \<longrightarrow> k = length todo" by blast
      with Some False show ?thesis
        by (intro exI [of _ "Suc k"]) (simp add: after_scan_def)
    next
      case True
      from Some True have d: "due cd ct r = Some True" by simp
      show ?thesis
      proof (cases "reminder_alert e r")
        case None
        with d Cons.prems show ?thesis by (intro exI [of _ 0]) simp
      next
        case a: (Some a)
        show ?thesis
        proof (cases "alert_raises e (length seen)")
          case True
          with d a Cons.prems show ?thesis by (intro exI [of _ 0]) simp
        next
          case nr: False
          from d obtain kvs where r: "r = PDict kvs" using due_True_dict by blast
          define r' where "r' = deactivated r"
          have r': "setitem r ''active'' (PBool False) = Some r'"
            by (simp add: r r'_def deactivated_dict)
          define st1 where "st1 = st\<lparr>reminders := PList (seen @ r' # todo)\<rparr>"
          obtain oc1 st2 where sv: "save_data (disk_at e (length seen)) st1 = (oc1, st2)"
            by (cases "save_data (disk_at e (length seen)) st1")
          from save_data_eq [OF sv] have rs: "reminders st2 = PList ((seen @ [r']) @ todo)"
            by (simp add: st1_def)
          show ?thesis
          proof (cases oc1)
            case Raised
            with d a nr r' sv Cons.prems(1) have "oc = Raised" "calls' = calls @ [(length seen, a)]" "st' = st2"
              by (simp_all add: st1_def)
            with rs d a show ?thesis
              by (intro exI [of _ "Suc 0"]) (simp add: after_scan_def r'_def)
          next
            case Returned
            with d a nr r' sv Cons.prems(1)
            have run: "check_reminders_loop e cd ct (seen @ [r']) todo (calls @ [(length seen, a)]) st2
                      = (oc, calls', st')" by (simp add: st1_def)
            from Cons.IH [OF run rs] obtain k where k: "k \<le> length todo"
              "reminders st' = PList ((seen @ [r']) @ map (after_scan cd ct) (take k todo) @ drop k todo)"
              "calls' = (calls @ [(length seen, a)]) @ due_alerts e cd ct (length (seen @ [r'])) (take k todo)"
              "oc = Returned \<longrightarrow> k = length todo" by blast
            with d a show ?thesis
              by (intro exI [of _ "Suc k"]) (simp add: after_scan_def r'_def)
          qed
        qed
      qed
    qed
  qed
qed

lemma check_reminders_not_list:
  assumes "\<forall>xs. reminders st \<noteq> PList xs" and "check_reminders e now st = (oc, calls, st')"
  shows "calls = [] \<and> st' = st"
proof (cases "reminders st")
  case (PDict kvs)
  with assms(2) show ?thesis
    by (cases kvs) (auto simp: check_reminders_def due_def)
next
  case (PStr s)
  with assms(2) show ?thesis
    by (cases s) (auto simp: check_reminders_def due_def)
qed (use assms in \<open>auto simp: check_reminders_def\<close>)

lemma check_reminders_prefix:
  assumes "reminders st = PList xs" and "check_reminders e now st = (oc, calls, st')"
  shows "\<exists>k\<le>length xs.
           reminders st' = PList (map (after_scan (strftime_ymd now) (strftime_hm now)) (take k xs) @ drop k xs)
         \<and> calls = due_alerts e (strftime_ymd now) (strftime_hm now) 0 (take k xs)
         \<and> (oc = Returned \<longrightarrow> k = length xs)"
  using assms loop_prefix [of e "strftime_ymd now" "strftime_hm now" "[]" xs "[]" st oc calls st']
  by (simp add: check_reminders_def)

lemma check_reminders_other_fields:
  assumes "check_reminders e now st = (oc, calls, st')"
  shows "alarms st' = alarms st \<and> snoozed_items st' = snoozed_items st
       \<and> pending_voice_note st' = pending_voice_note st"
  using assms loop_other_fields [of e "strftime_ymd now" "strftime_hm now" "[]" _ "[]" st oc calls st']
  by (auto simp: check_reminders_def split: option.splits)

lemma due_alerts_positions:
  "p \<in> set (due_alerts e cd ct k ys) \<Longrightarrow> k \<le> fst p \<and> fst p < k + length ys"
  by (induction ys arbitrary: k) (fastforce split: if_splits option.splits)+

lemma calls_for_due_alerts:
  "calls_for i (due_alerts e cd ct k ys) =
     (if k \<le> i \<and> i - k < length ys \<and> due cd ct (ys ! (i - k)) = Some True
      then (case reminder_alert e (ys ! (i - k)) of None \<Rightarrow> [] | Some a \<Rightarrow> [a])
      else [])"
proof (induction ys arbitrary: k)
  case Nil
  then show ?case by (simp add: calls_for_def)
next
  case (Cons r ys)
  have step: "calls_for j ((k', a) # cs) = (if k' = j then [a] else []) @ calls_for j cs"
    for a cs j k' by (simp add: calls_for_def)
  have later: "calls_for k (due_alerts e cd ct (Suc k) ys) = []"
    using due_alerts_positions [of _ e cd ct "Suc k" ys]
    by (fastforce simp: calls_for_def filter_empty_conv)
  show ?case
  proof (cases "i = k")
    case True
    with later show ?thesis by (auto simp: step split: option.splits)
  next
    case False
    then have "k \<le> i \<longleftrightarrow> Suc k \<le> i" by auto
    moreover have "Suc k \<le> i \<Longrightarrow> (r # ys) ! (i - k) = ys ! (i - Suc k)"
      by (simp add: Suc_diff_le)
    moreover have "Suc k \<le> i \<Longrightarrow> i - k < length (r # ys) \<longleftrightarrow> i - Suc k < length ys"
      by auto
    ultimately show ?thesis using False Cons.IH [of "Suc k"]
      by (auto simp: step split: option.splits)
  qed
qed

lemma nth_scanned:
  "i < length xs \<Longrightarrow> (map f (take k xs) @ drop k xs) ! i = (if i < k then f (xs ! i) else xs ! i)"
  by (auto simp: nth_append min_def)

lemma well_formed_keys:
  assumes "well_formed r"
  shows "\<exists>kvs a d t ti de i. r = PDict kvs \<and> map_of kvs ''active'' = Some a
     \<and> map_of kvs ''date'' = Some d \<and> map_of kvs ''time'' = Some t
     \<and> map_of kvs ''title'' = Some ti \<and> map_of kvs ''description'' = Some de
     \<and> map_of kvs ''id'' = Some i"
  using assms by (cases r) (auto simp: well_formed_def reminder_keys_def)

lemma well_formed_due: "well_formed r \<Longrightarrow> due cd ct r \<noteq> None"
  by (auto dest!: well_formed_keys simp: due_def)

lemma well_formed_alert: "well_formed r \<Longrightarrow> reminder_alert e r \<noteq> None"
  by (auto dest!: well_formed_keys simp: reminder_alert_def)

lemma loop_returns:
  assumes "\<forall>r\<in>set todo. well_formed r"
    and "\<forall>j<length todo. \<not> alert_raises e (length seen + j) \<and> disk_at e (length seen + j) = Disk_ok"
  shows "fst (check_reminders_loop e cd ct seen todo calls st) = Returned"
  using assms
proof (induction todo arbitrary: seen calls st)
  case Nil
  then show ?case by simp
next
  case (Cons r todo)
  from Cons.prems(1) have wf: "well_formed r" and wfs: "\<forall>r\<in>set todo. well_formed r" by simp_all
  from Cons.prems(2) have here: "\<not> alert_raises e (length seen)" "disk_at e (length seen) = Disk_ok"
    by force+
  have later: "\<forall>j<length todo. \<not> alert_raises e (length (seen @ [x]) + j)
                 \<and> disk_at e (length (seen @ [x]) + j) = Disk_ok" for x
  proof (intro allI impI)
    fix j assume "j < length todo"
    then have "Suc j < length (r # todo)" by simp
    with Cons.prems(2) have "\<not> alert_raises e (length seen + Suc j) \<and> disk_at e (length seen + Suc j) = Disk_ok"
      by blast
    then show "\<not> alert_raises e (length (seen @ [x]) + j) \<and> disk_at e (length (seen @ [x]) + j) = Disk_ok"
      by simp
  qed
  from well_formed_due [OF wf] obtain b where b: "due cd ct r = Some b" by auto
  show ?case
  proof (cases b)
    case False
    with b Cons.IH [OF wfs later] show ?thesis by simp
  next
    case True
    from well_formed_alert [OF wf] obtain a where a: "reminder_alert e r = Some a" by auto
    from well_formed_keys [OF wf] obtain kvs where kvs: "r = PDict kvs" by blast
    from b True a here kvs Cons.IH [OF wfs later] show ?thesis
      by (simp add: save_data_def)
  qed
qed

lemma check_reminders_returns:
  assumes "reminders st = PList xs" and "\<forall>r\<in>set xs. well_formed r"
    and "\<forall>j<length xs. \<not> alert_raises e j \<and> disk_at e j = Disk_ok"
  shows "fst (check_reminders e now st) = Returned"
  using assms loop_returns [of xs e "[]"] by (simp add: check_reminders_def)

section \<open>Where a scan ends: lemmas\<close>

lemma due_alerts_single:
  "due_alerts e cd ct k [r] =
     (if due cd ct r = Some True
      then (case reminder_alert e r of None \<Rightarrow> [] | Some a \<Rightarrow> [(k, a)]) else [])"
  by (simp split: option.splits)

lemma loop_step_handled:
  assumes "handled e cd ct (length seen) r" and "reminders st = PList (seen @ r # todo)"
  shows "\<exists>st1. check_reminders_loop e cd ct seen (r # todo) calls st
            = check_reminders_loop e cd ct (seen @ [after_scan cd ct r]) todo
                (calls @ due_alerts e cd ct (length seen) [r]) st1
         \<and> reminders st1 = PList ((seen @ [after_scan cd ct r]) @ todo)"
proof (cases "due cd ct r = Some False")
  case True
  with assms(2) show ?thesis
    by (intro exI [of _ st]) (simp add: after_scan_def)
next
  case False
  with assms(1) have d: "due cd ct r = Some True" and al: "reminder_alert e r \<noteq> None"
    and nr: "\<not> alert_raises e (length seen)" and dk: "disk_at e (length seen) = Disk_ok"
    by (simp_all add: handled_def alert_returns_def)
  from al obtain a where a: "reminder_alert e r = Some a" by auto
  from d obtain kvs where r: "r = PDict kvs" using due_True_dict by blast
  define r' where "r' = deactivated r"
  have set: "setitem r ''active'' (PBool False) = Some r'"
    by (simp add: r r'_def deactivated_dict)
  define st1 where "st1 = snd (save_data Disk_ok (st\<lparr>reminders := PList (seen @ r' # todo)\<rparr>))"
  have sv: "save_data Disk_ok (st\<lparr>reminders := PList (seen @ r' # todo)\<rparr>) = (Returned, st1)"
    by (simp add: st1_def save_data_def)
  have "reminders st1 = PList ((seen @ [after_scan cd ct r]) @ todo)"
    by (simp add: st1_def after_scan_def d r'_def)
  moreover have "check_reminders_loop e cd ct seen (r # todo) calls st
            = check_reminders_loop e cd ct (seen @ [after_scan cd ct r]) todo
                (calls @ due_alerts e cd ct (length seen) [r]) st1"
    using d a nr dk set sv by (simp add: after_scan_def r'_def)
  ultimately show ?thesis by blast
qed

lemma loop_step_failure:
  assumes "\<not> handled e cd ct (length seen) r" and "reminders st = PList (seen @ r # todo)"
  shows "\<exists>st'. check_reminders_loop e cd ct seen (r # todo) calls st
            = (Raised, calls @ failing_call e cd ct (length seen) r, st')
         \<and> reminders st' = PList (seen @ failing_item e cd ct (length seen) r # todo)"
proof (cases "alert_returns e cd ct (length seen) r")
  case True
  then have d: "due cd ct r = Some True" and al: "reminder_alert e r \<noteq> None"
    and nr: "\<not> alert_raises e (length seen)" by (simp_all add: alert_returns_def)
  from True assms(1) have dk: "disk_at e (length seen) \<noteq> Disk_ok" by (simp add: handled_def)
  from al obtain a where a: "reminder_alert e r = Some a" by auto
  from d obtain kvs where r: "r = PDict kvs" using due_True_dict by blast
  define r' where "r' = deactivated r"
  have set: "setitem r ''active'' (PBool False) = Some r'"
    by (simp add: r r'_def deactivated_dict)
  define st1 where "st1 = st\<lparr>reminders := PList (seen @ r' # todo)\<rparr>"
  obtain oc st2 where sv: "save_data (disk_at e (length seen)) st1 = (oc, st2)"
    by (cases "save_data (disk_at e (length seen)) st1")
  from sv dk have oc: "oc = Raised"
    by (cases "disk_at e (length seen)") (auto simp: save_data_def)
  from save_data_eq [OF sv] have "reminders st2 = PList (seen @ r' # todo)" by (simp add: st1_def)
  moreover have "check_reminders_loop e cd ct seen (r # todo) calls st
       = (Raised, calls @ [(length seen, a)], st2)"
    using d a nr set sv oc by (simp add: st1_def)
  ultimately show ?thesis
    using True d a by (intro exI [of _ st2]) (simp add: failing_call_def failing_item_def r'_def)
next
  case False
  have "check_reminders_loop e cd ct seen (r # todo) calls st = (Raised, calls, st)"
  proof (cases "due cd ct r")
    case None
    then show ?thesis by simp
  next
    case (Some b)
    with assms(1) have d: "due cd ct r = Some True" by (cases b) (simp_all add: handled_def)
    with False show ?thesis
      by (cases "reminder_alert e r") (simp_all add: alert_returns_def)
  qed
  with False assms(2) show ?thesis
    by (intro exI [of _ st]) (simp add: failing_call_def failing_item_def)
qed

lemma first_failure_Some:
  "first_failure e cd ct k todo = Some q \<Longrightarrow>
     q < length todo \<and> \<not> handled e cd ct (k + q) (todo ! q)
     \<and> (\<forall>j<q. handled e cd ct (k + j) (todo ! j))"
proof (induction todo arbitrary: k q)
  case Nil
  then show ?case by simp
next
  case (Cons r todo)
  show ?case
  proof (cases "handled e cd ct k r")
    case False
    with Cons.prems show ?thesis by simp
  next
    case True
    with Cons.prems obtain q' where q': "first_failure e cd ct (Suc k) todo = Some q'" "q = Suc q'"
      by auto
    from Cons.IH [OF q'(1)] have ih: "q' < length todo" "\<not> handled e cd ct (Suc k + q') (todo ! q')"
      "\<forall>j<q'. handled e cd ct (Suc k + j) (todo ! j)" by simp_all
    have "handled e cd ct (k + j) ((r # todo) ! j)" if "j < q" for j
      using that True ih(3) q'(2) by (cases j) simp_all
    with ih q'(2) show ?thesis by simp
  qed
qed

lemma first_failure_None:
  "first_failure e cd ct k todo = None \<Longrightarrow> \<forall>j<length todo. handled e cd ct (k + j) (todo ! j)"
proof (induction todo arbitrary: k)
  case Nil
  then show ?case by simp
next
  case (Cons r todo)
  from Cons.prems have h: "handled e cd ct k r" and n: "first_failure e cd ct (Suc k) todo = None"
    by (auto split: if_splits)
  from Cons.IH [OF n] have ih: "\<forall>j<length todo. handled e cd ct (Suc k + j) (todo ! j)" .
  show ?case
  proof (intro allI impI)
    fix j assume "j < length (r # todo)"
    with h ih show "handled e cd ct (k + j) ((r # todo) ! j)" by (cases j) simp_all
  qed
qed

lemma loop_no_failure:
  "first_failure e cd ct (length seen) todo = None \<Longrightarrow> reminders st = PList (seen @ todo)
   \<Longrightarrow> \<exists>st'. check_reminders_loop e cd ct seen todo calls st
            = (Returned, calls @ due_alerts e cd ct (length seen) todo, st')
         \<and> reminders st' = PList (seen @ map (after_scan cd ct) todo)"
proof (induction todo arbitrary: seen calls st)
  case Nil
  then show ?case by simp
next
  case (Cons r todo)
  from Cons.prems(1) have h: "handled e cd ct (length seen) r"
    and n: "first_failure e cd ct (length (seen @ [after_scan cd ct r])) todo = None"
    by (auto split: if_splits)
  from loop_step_handled [OF h Cons.prems(2), of calls] obtain st1 where
    s: "check_reminders_loop e cd ct seen (r # todo) calls st
            = check_reminders_loop e cd ct (seen @ [after_scan cd ct r]) todo
                (calls @ due_alerts e cd ct (length seen) [r]) st1"
    and r1: "reminders st1 = PList ((seen @ [after_scan cd ct r]) @ todo)" by blast
  from Cons.IH [OF n r1, of "calls @ due_alerts e cd ct (length seen) [r]"] obtain st' where
    "check_reminders_loop e cd ct (seen @ [after_scan cd ct r]) todo
        (calls @ due_alerts e cd ct (length seen) [r]) st1
      = (Returned, (calls @ due_alerts e cd ct (length seen) [r])
            @ due_alerts e cd ct (length (seen @ [after_scan cd ct r])) todo, st')"
    "reminders st' = PList ((seen @ [after_scan cd ct r]) @ map (after_scan cd ct) todo)"
    by blast
  with s show ?case
    by (intro exI [of _ st']) (simp split: option.splits)
qed

lemma loop_failure:
  "first_failure e cd ct (length seen) todo = Some q \<Longrightarrow> reminders st = PList (seen @ todo)
   \<Longrightarrow> \<exists>st'. check_reminders_loop e cd ct seen todo calls st
            = (Raised, calls @ due_alerts e cd ct (length seen) (take q todo)
                 @ failing_call e cd ct (length seen + q) (todo ! q), st')
         \<and> reminders st' = PList (seen @ map (after_scan cd ct) (take q todo)
                 @ failing_item e cd ct (length seen + q) (todo ! q) # drop (Suc q) todo)"
proof (induction todo arbitrary: seen calls st q)
  case Nil
  then show ?case by simp
next
  case (Cons r todo)
  show ?case
  proof (cases "handled e cd ct (length seen) r")
    case False
    with Cons.prems(1) have q: "q = 0" by simp
    from loop_step_failure [OF False Cons.prems(2), of calls] q show ?thesis by simp
  next
    case True
    with Cons.prems(1) obtain q' where
      n: "first_failure e cd ct (length (seen @ [after_scan cd ct r])) todo = Some q'"
      and q: "q = Suc q'" by auto
    from loop_step_handled [OF True Cons.prems(2), of calls] obtain st1 where
      s: "check_reminders_loop e cd ct seen (r # todo) calls st
            = check_reminders_loop e cd ct (seen @ [after_scan cd ct r]) todo
                (calls @ due_alerts e cd ct (length seen) [r]) st1"
      and r1: "reminders st1 = PList ((seen @ [after_scan cd ct r]) @ todo)" by blast
    from Cons.IH [OF n r1, of "calls @ due_alerts e cd ct (length seen) [r]"] obtain st' where
      "check_reminders_loop e cd ct (seen @ [after_scan cd ct r]) todo
          (calls @ due_alerts e cd ct (length seen) [r]) st1
        = (Raised, (calls @ due_alerts e cd ct (length seen) [r])
              @ due_alerts e cd ct (length (seen @ [after_scan cd ct r])) (take q' todo)
              @ failing_call e cd ct (length (seen @ [after_scan cd ct r]) + q') (todo ! q'), st')"
      "reminders st' = PList ((seen @ [after_scan cd ct r]) @ map (after_scan cd ct) (take q' todo)
              @ failing_item e cd ct (length (seen @ [after_scan cd ct r]) + q') (todo ! q')
                # drop (Suc q') todo)"
      by blast
    with s q show ?thesis
      by (intro exI [of _ st']) (simp split: option.splits)
  qed
qed

lemma check_reminders_no_failure:
  assumes "reminders st = PList xs"
    and "first_failure e (strftime_ymd now) (strftime_hm now) 0 xs = None"
  shows "\<exists>st'. check_reminders e now st
            = (Returned, due_alerts e (strftime_ymd now) (strftime_hm now) 0 xs, st')
         \<and> reminders st' = PList (map (after_scan (strftime_ymd now) (strftime_hm now)) xs)"
  using assms loop_no_failure [of e "strftime_ymd now" "strftime_hm now" "[]" xs st "[]"]
  by (simp add: check_reminders_def)

lemma check_reminders_failure:
  assumes "reminders st = PList xs"
    and "first_failure e (strftime_ymd now) (strftime_hm now) 0 xs = Some p"
  shows "\<exists>st'. check_reminders e now st
            = (Raised, due_alerts e (strftime_ymd now) (strftime_hm now) 0 (take p xs)
                 @ failing_call e (strftime_ymd now) (strftime_hm now) p (xs ! p), st')
         \<and> reminders st' = PList (map (after_scan (strftime_ymd now) (strftime_hm now)) (take p xs)
                 @ failing_item e (strftime_ymd now) (strftime_hm now) p (xs ! p) # drop (Suc p) xs)"
  using assms loop_failure [of e "strftime_ymd now" "strftime_hm now" "[]" xs p st "[]"]
  by (simp add: check_reminders_def)

lemma calls_for_append: "calls_for i (cs @ ds) = calls_for i cs @ calls_for i ds"
  by (simp add: calls_for_def)

lemma calls_for_failing_call:
  "calls_for i (failing_call e cd ct p r) =
     (if i = p \<and> alert_returns e cd ct p r
      then (case reminder_alert e r of None \<Rightarrow> [] | Some a \<Rightarrow> [a]) else [])"
  by (auto simp: failing_call_def calls_for_def alert_returns_def split: option.splits)

lemma nth_failing:
  "p < length xs \<Longrightarrow> i < length xs \<Longrightarrow>
   (map f (take p xs) @ y # drop (Suc p) xs) ! i =
     (if i < p then f (xs ! i) else if i = p then y else xs ! i)"
proof -
  assume p: "p < length xs" and i: "i < length xs"
  have l: "length (map f (take p xs)) = p" using p by simp
  consider "i < p" | "i = p" | "p < i" by linarith
  then show ?thesis
  proof cases
    case 1
    with p show ?thesis by (simp add: nth_append)
  next
    case 2
    with l show ?thesis by (simp add: nth_append)
  next
    case 3
    then obtain m where m: "i = Suc (p + m)" by (metis less_iff_Suc_add)
    with i have "Suc p + m < length xs" by simp
    with 3 m l show ?thesis by (simp add: nth_append)
  qed
qed

lemma dispatched_before_failure:
  assumes "reminders st = PList xs" and "i < length xs"
    and d: "due (strftime_ymd now) (strftime_hm now) (xs ! i) = Some True"
    and before: "\<forall>j<i. handled e (strftime_ymd now) (strftime_hm now) j (xs ! j)"
    and al: "reminder_alert e (xs ! i) = Some al" and nr: "\<not> alert_raises e i"
    and run: "check_reminders e now st = (oc, calls, st')"
  shows "\<exists>xs'. calls_for i calls = [al] \<and> reminders st' = PList xs' \<and> length xs' = length xs
           \<and> xs' ! i = deactivated (xs ! i)"
proof -
  let ?cd = "strftime_ymd now" and ?ct = "strftime_hm now"
  have ar: "alert_returns e ?cd ?ct i (xs ! i)" using d al nr by (simp add: alert_returns_def)
  show ?thesis
  proof (cases "first_failure e ?cd ?ct 0 xs")
    case None
    from check_reminders_no_failure [OF assms(1) None] run
    have c: "calls = due_alerts e ?cd ?ct 0 xs"
      and r: "reminders st' = PList (map (after_scan ?cd ?ct) xs)" by auto
    have "calls_for i calls = [al]" using assms(2) d al by (simp add: c calls_for_due_alerts)
    moreover have "map (after_scan ?cd ?ct) xs ! i = deactivated (xs ! i)"
      using assms(2) d by (simp add: after_scan_def)
    ultimately show ?thesis using r by (intro exI [of _ "map (after_scan ?cd ?ct) xs"]) simp
  next
    case (Some p)
    from first_failure_Some [OF Some] have p: "p < length xs" and np: "\<not> handled e ?cd ?ct p (xs ! p)"
      by simp_all
    from np before have ip: "i \<le> p" by (metis not_le_imp_less)
    define xs' where "xs' = map (after_scan ?cd ?ct) (take p xs)
        @ failing_item e ?cd ?ct p (xs ! p) # drop (Suc p) xs"
    from check_reminders_failure [OF assms(1) Some] run
    have c: "calls = due_alerts e ?cd ?ct 0 (take p xs) @ failing_call e ?cd ?ct p (xs ! p)"
      and r: "reminders st' = PList xs'" by (auto simp: xs'_def)
    have len: "length xs' = length xs" using p by (simp add: xs'_def)
    show ?thesis
    proof (cases "i = p")
      case True
      have "calls_for i calls = [al]"
        using True ar al p by (simp add: c calls_for_append calls_for_due_alerts calls_for_failing_call)
      moreover have "xs' ! i = deactivated (xs ! i)"
        unfolding xs'_def using True ar p by (simp add: nth_failing failing_item_def)
      ultimately show ?thesis using r len by blast
    next
      case False
      with ip have lt: "i < p" by simp
      have "calls_for i calls = [al]"
        using lt p d al by (simp add: c calls_for_append calls_for_due_alerts calls_for_failing_call)
      moreover have "xs' ! i = deactivated (xs ! i)"
        unfolding xs'_def using lt p assms(2) d by (simp add: nth_failing after_scan_def)
      ultimately show ?thesis using r len by blast
    qed
  qed
qed

section \<open>The scan at 14:30\<close>

lemma fmt_date: "strftime_ymd half_past_two = ''2024-06-01''"
  by (simp add: half_past_two_def strftime_ymd_def zfill_def dec.simps digit_def)

lemma fmt_time: "strftime_hm half_past_two = ''14:30''"
  by (simp add: half_past_two_def strftime_hm_def zfill_def dec.simps digit_def)

lemma call_bob_scan:
  "check_reminders quiet_env half_past_two call_bob_app = (Returned, [(0, call_bob_alert)], call_bob_app_done)"
  by (simp add: check_reminders_def call_bob_app_def fmt_date fmt_time call_bob_def due_def
      reminder_alert_def quiet_env_def format_value_def dict_get_def save_data_def fresh_app_def
      document_def call_bob_alert_def call_bob_app_done_def call_bob_done_def)

lemma untitled_scan:
  "check_reminders quiet_env half_past_two untitled_app = (Raised, [], untitled_app)"
  by (simp add: check_reminders_def untitled_app_def fmt_date fmt_time untitled_def due_def
      reminder_alert_def)

lemma untitled_init: "app_init (Doc untitled_document) = (Returned, untitled_app)"
  by (simp add: app_init_def load_data_def load_data_body_def swallow_def fresh_app_def
      untitled_document_def untitled_app_def dict_get_default_def)

lemma returned_scan_fires_once:
  assumes "reminders st = PList xs" and "i < length xs"
    and "getitem (xs ! i) ''active'' = Some a" and "truthy a"
    and "getitem (xs ! i) ''date'' = Some (PStr (strftime_ymd now))"
    and "getitem (xs ! i) ''time'' = Some (PStr (strftime_hm now))"
    and "check_reminders e now st = (Returned, calls, st')"
  shows "\<exists>al xs'. reminder_alert e (xs ! i) = Some al \<and> calls_for i calls = [al]
        \<and> reminders st' = PList xs' \<and> length xs' = length xs
        \<and> setitem (xs ! i) ''active'' (PBool False) = Some (xs' ! i)
        \<and> getitem (xs' ! i) ''active'' = Some (PBool False)
        \<and> (\<forall>e2 now2. calls_for i (fst (snd (check_reminders e2 now2 st'))) = [])"
proof -
  let ?cd = "strftime_ymd now" and ?ct = "strftime_hm now"
  have d: "due ?cd ?ct (xs ! i) = Some True"
    using assms(3-6) by (auto simp: due_True_iff)
  from assms(1,7)
  have run: "check_reminders_loop e ?cd ?ct [] xs [] st = (Returned, calls, st')"
    by (simp add: check_reminders_def)
  from loop_returned [OF run] assms(1)
  have st': "reminders st' = PList (map (after_scan ?cd ?ct) xs)"
    and calls: "calls = due_alerts e ?cd ?ct 0 xs"
    and al: "\<forall>r\<in>set xs. due ?cd ?ct r = Some True \<longrightarrow> reminder_alert e r \<noteq> None"
    by simp_all
  from al d assms(2) obtain al where a: "reminder_alert e (xs ! i) = Some al"
    by (metis nth_mem not_Some_eq)
  have c: "calls_for i calls = [al]"
    using d a assms(2) by (simp add: calls calls_for_due_alerts)
  define xs' where "xs' = map (after_scan ?cd ?ct) xs"
  have n: "xs' ! i = deactivated (xs ! i)"
    using assms(2) d by (simp add: xs'_def after_scan_def)
  from d obtain kvs where kvs: "xs ! i = PDict kvs" using due_True_dict by blast
  have s: "setitem (xs ! i) ''active'' (PBool False) = Some (xs' ! i)"
    by (simp add: n kvs deactivated_dict)
  have g: "getitem (xs' ! i) ''active'' = Some (PBool False)"
    by (simp add: n kvs deactivated_dict map_of_dict_set_same)
  have again: "calls_for i (fst (snd (check_reminders e2 now2 st'))) = []" for e2 now2
  proof -
    obtain oc2 calls2 st2 where r2: "check_reminders e2 now2 st' = (oc2, calls2, st2)"
      by (cases "check_reminders e2 now2 st'") auto
    from check_reminders_prefix [OF _ r2, of xs'] st' obtain k where
      k: "k \<le> length xs'" "calls2 = due_alerts e2 (strftime_ymd now2) (strftime_hm now2) 0 (take k xs')"
      by (auto simp: xs'_def)
    have "due (strftime_ymd now2) (strftime_hm now2) (xs' ! i) = Some False"
      unfolding n using d by (rule due_deactivated)
    then have "calls_for i calls2 = []"
      by (auto simp: k(2) calls_for_due_alerts)
    with r2 show ?thesis by simp
  qed
  from a c st' s g again show ?thesis
    by (intro exI [of _ al] exI [of _ xs']) (simp add: xs'_def)
qed


section \<open>A reminder that is not due\<close>

lemma off_minute_not_due:
  assumes "getitem r ''date'' \<noteq> Some (PStr cd) \<or> getitem r ''time'' \<noteq> Some (PStr ct)"
  shows "due cd ct r \<noteq> Some True"
  using assms by (auto simp: due_True_iff)

lemma check_reminders_off_minute:
  assumes "reminders st = PList xs" and "i < length xs"
    and "due (strftime_ymd now) (strftime_hm now) (xs ! i) \<noteq> Some True"
    and "check_reminders e now st = (oc, calls, st')"
  shows "\<exists>xs'. reminders st' = PList xs' \<and> length xs' = length xs \<and> xs' ! i = xs ! i
           \<and> calls_for i calls = []"
proof -
  let ?cd = "strftime_ymd now" and ?ct = "strftime_hm now"
  from check_reminders_prefix [OF assms(1,4)] obtain k where k: "k \<le> length xs"
    "reminders st' = PList (map (after_scan ?cd ?ct) (take k xs) @ drop k xs)"
    "calls = due_alerts e ?cd ?ct 0 (take k xs)" by blast
  define xs' where "xs' = map (after_scan ?cd ?ct) (take k xs) @ drop k xs"
  have "xs' ! i = xs ! i"
    unfolding xs'_def using assms(2,3) by (simp add: nth_scanned after_scan_def)
  moreover have "length xs' = length xs" using k(1) by (simp add: xs'_def)
  moreover have "calls_for i calls = []"
    using assms(3) by (auto simp: k(3) calls_for_due_alerts)
  ultimately show ?thesis using k(2) by (auto simp: xs'_def)
qed

lemma check_snoozed_reminders:
  "reminders (snd (snd (check_snoozed e now st))) = reminders st"
  by (simp add: check_snoozed_def split: prod.splits)

lemma tick_body_off_minute:
  assumes "reminders st = PList xs" and "i < length xs"
    and "due (strftime_ymd (tk_now_reminders tk)) (strftime_hm (tk_now_reminders tk)) (xs ! i) \<noteq> Some True"
    and "tick_body tk st = (rep, st')"
  shows "\<exists>xs'. reminders st' = PList xs' \<and> length xs' = length xs \<and> xs' ! i = xs ! i
           \<and> calls_for i (fst (snd rep)) = []"
proof -
  obtain oc calls st1 where c: "check_reminders (tk_env_reminders tk) (tk_now_reminders tk) st = (oc, calls, st1)"
    by (cases "check_reminders (tk_env_reminders tk) (tk_now_reminders tk) st") auto
  from check_reminders_off_minute [OF assms(1-3) c] obtain xs' where
    x: "reminders st1 = PList xs'" "length xs' = length xs" "xs' ! i = xs ! i" "calls_for i calls = []"
    by blast
  have "reminders st' = reminders st1 \<and> fst (snd rep) = calls"
    using assms(4) c check_snoozed_reminders [of "tk_env_snoozed tk" "tk_now_snoozed tk" st1]
    by (cases oc) (auto simp: tick_body_def split: prod.splits)
  with x show ?thesis by auto
qed

text \<open>
  Claim C3. A reminder is dispatched only on a tick whose minute strings equal its stored
  date and time: over any sequence of periods of the monitor loop none of which reads the
  reminder's date and time off the clock, the reminder at position \<open>i\<close> is never
  dispatched and stays in the list unchanged, its \<^verbatim>\<open>'active'\<close> included. A single tick is
  the sequence of one period.
\<close>

theorem reminder_never_fired_off_minute:
  assumes "reminders st = PList xs" and "i < length xs"
    and "\<forall>tk\<in>set ticks.
           getitem (xs ! i) ''date'' \<noteq> Some (PStr (strftime_ymd (tk_now_reminders tk)))
         \<or> getitem (xs ! i) ''time'' \<noteq> Some (PStr (strftime_hm (tk_now_reminders tk)))"
    and "monitor_loop ticks st = (reps, st')"
  shows "\<exists>xs'. reminders st' = PList xs' \<and> length xs' = length xs \<and> xs' ! i = xs ! i
           \<and> (\<forall>rep\<in>set reps. calls_for i (fst (snd rep)) = [])"
  using assms
proof (induction ticks arbitrary: st xs reps st')
  case Nil
  then show ?case by simp
next
  case (Cons tk ticks)
  show ?case
  proof (cases "tk_running tk")
    case False
    with Cons.prems show ?thesis by simp
  next
    case True
    obtain rep st1 where b: "tick_body tk st = (rep, st1)" by (cases "tick_body tk st")
    obtain reps1 st2 where m: "monitor_loop ticks st1 = (reps1, st2)"
      by (cases "monitor_loop ticks st1")
    from Cons.prems(4) True b m have res: "reps = rep # reps1" "st' = st2" by simp_all
    have nd: "due (strftime_ymd (tk_now_reminders tk)) (strftime_hm (tk_now_reminders tk)) (xs ! i) \<noteq> Some True"
      using Cons.prems(3) by (intro off_minute_not_due) simp
    from tick_body_off_minute [OF Cons.prems(1,2) nd b] obtain xs1 where
      x: "reminders st1 = PList xs1" "length xs1 = length xs" "xs1 ! i = xs ! i"
         "calls_for i (fst (snd rep)) = []" by blast
    have "\<exists>xs'. reminders st2 = PList xs' \<and> length xs' = length xs1 \<and> xs' ! i = xs1 ! i
           \<and> (\<forall>rep\<in>set reps1. calls_for i (fst (snd rep)) = [])"
      using Cons.prems(2,3) x by (intro Cons.IH [OF x(1) _ _ m]) simp_all
    with x res show ?thesis by auto
  qed
qed

theorem reminder_never_fired_off_minute_witness:
  "\<exists>xs'. reminders (snd (monitor_loop [late_tick, late_tick] call_bob_app)) = PList xs'
      \<and> length xs' = 1 \<and> xs' ! 0 = PDict call_bob
      \<and> calls_for 0 (fst (snd (hd (fst (monitor_loop [late_tick, late_tick] call_bob_app))))) = []"
proof -
  have r: "reminders call_bob_app = PList [PDict call_bob]" by (simp add: call_bob_app_def)
  have t: "strftime_hm (tk_now_reminders late_tick) = ''14:31''"
    by (simp add: late_tick_def quiet_tick_def half_past_two_def strftime_hm_def zfill_def
        dec.simps digit_def)
  have off: "\<forall>tk\<in>set [late_tick, late_tick].
           getitem ([PDict call_bob] ! 0) ''date'' \<noteq> Some (PStr (strftime_ymd (tk_now_reminders tk)))
         \<or> getitem ([PDict call_bob] ! 0) ''time'' \<noteq> Some (PStr (strftime_hm (tk_now_reminders tk)))"
    by (simp add: t call_bob_def)
  have m: "monitor_loop [late_tick, late_tick] call_bob_app
         = (fst (monitor_loop [late_tick, late_tick] call_bob_app),
            snd (monitor_loop [late_tick, late_tick] call_bob_app))" by simp
  have run: "tk_running late_tick" by (simp add: late_tick_def quiet_tick_def)
  from reminder_never_fired_off_minute [OF r _ off m] obtain xs' where
    x: "reminders (snd (monitor_loop [late_tick, late_tick] call_bob_app)) = PList xs'"
       "length xs' = length [PDict call_bob]" "xs' ! 0 = [PDict call_bob] ! 0"
       "\<forall>rep\<in>set (fst (monitor_loop [late_tick, late_tick] call_bob_app)).
           calls_for 0 (fst (snd rep)) = []"
    by auto
  have "fst (monitor_loop [late_tick, late_tick] call_bob_app) \<noteq> []"
    using run by (simp split: prod.splits)
  then have "hd (fst (monitor_loop [late_tick, late_tick] call_bob_app))
        \<in> set (fst (monitor_loop [late_tick, late_tick] call_bob_app))" by simp
  with x show ?thesis by (intro exI [of _ xs']) simp
qed

section \<open>Failures during a tick\<close>

lemma monitor_loop_periods:
  "length (fst (monitor_loop ticks st)) = length (takeWhile tk_running ticks)"
proof (induction ticks arbitrary: st)
  case Nil
  then show ?case by simp
next
  case (Cons tk ticks)
  obtain rep st1 where b: "tick_body tk st = (rep, st1)" by (cases "tick_body tk st")
  obtain reps1 st2 where m: "monitor_loop ticks st1 = (reps1, st2)"
    by (cases "monitor_loop ticks st1")
  from Cons.IH [of st1] b m show ?case by simp
qed

lemma tick_body_raised:
  assumes "fst (check_reminders (tk_env_reminders tk) (tk_now_reminders tk) st) = Raised"
  shows "snd (snd (fst (tick_body tk st))) = [] \<and> snoozed_items (snd (tick_body tk st)) = snoozed_items st"
proof -
  obtain oc calls st1 where c: "check_reminders (tk_env_reminders tk) (tk_now_reminders tk) st = (oc, calls, st1)"
    by (cases "check_reminders (tk_env_reminders tk) (tk_now_reminders tk) st") auto
  with assms have "oc = Raised" by simp
  with c check_reminders_other_fields [OF c] show ?thesis by (simp add: tick_body_def)
qed

lemma snoozed_loop_prefix:
  "check_snoozed_loop e current seen todo calls = (oc, calls', items)
   \<Longrightarrow> \<exists>k\<le>length todo.
         items = seen @ map (after_snooze_scan current) (take k todo) @ drop k todo
       \<and> calls' = calls @ snoozed_alerts current (length seen) (take k todo)
       \<and> (oc = Returned \<longrightarrow> k = length todo)"
proof (induction todo arbitrary: seen calls)
  case Nil
  then show ?case by simp
next
  case (Cons item todo)
  show ?case
  proof (cases "snooze_due current item")
    case False
    with Cons.prems
    have "check_snoozed_loop e current (seen @ [item]) todo calls = (oc, calls', items)"
      by (auto simp: snooze_due_def split: if_splits)
    from Cons.IH [OF this] obtain k where "k \<le> length todo"
      "items = (seen @ [item]) @ map (after_snooze_scan current) (take k todo) @ drop k todo"
      "calls' = calls @ snoozed_alerts current (length (seen @ [item])) (take k todo)"
      "oc = Returned \<longrightarrow> k = length todo" by blast
    with False show ?thesis
      by (intro exI [of _ "Suc k"]) (simp add: after_snooze_scan_def)
  next
    case True
    show ?thesis
    proof (cases "alert_raises e (length seen)")
      case r: True
      with True Cons.prems show ?thesis
        by (intro exI [of _ 0]) (auto simp: snooze_due_def)
    next
      case nr: False
      with True Cons.prems
      have "check_snoozed_loop e current (seen @ [item\<lparr>sn_active := False\<rparr>]) todo
              (calls @ [(length seen, snoozed_alert item)]) = (oc, calls', items)"
        by (auto simp: snooze_due_def split: if_splits)
      from Cons.IH [OF this] obtain k where "k \<le> length todo"
        "items = (seen @ [item\<lparr>sn_active := False\<rparr>]) @ map (after_snooze_scan current) (take k todo) @ drop k todo"
        "calls' = (calls @ [(length seen, snoozed_alert item)])
                   @ snoozed_alerts current (length (seen @ [item\<lparr>sn_active := False\<rparr>])) (take k todo)"
        "oc = Returned \<longrightarrow> k = length todo" by blast
      with True show ?thesis
        by (intro exI [of _ "Suc k"]) (simp add: after_snooze_scan_def)
    qed
  qed
qed

lemma check_snoozed_prefix:
  "\<exists>k\<le>length (snoozed_items st).
       snoozed_items (snd (snd (check_snoozed e now st)))
         = map (after_snooze_scan (strftime_ymd_hm now)) (take k (snoozed_items st))
           @ drop k (snoozed_items st)
     \<and> fst (snd (check_snoozed e now st))
         = snoozed_alerts (strftime_ymd_hm now) 0 (take k (snoozed_items st))
     \<and> (fst (check_snoozed e now st) = Returned \<longrightarrow> k = length (snoozed_items st))"
proof -
  obtain oc calls items where
    l: "check_snoozed_loop e (strftime_ymd_hm now) [] (snoozed_items st) [] = (oc, calls, items)"
    by (cases "check_snoozed_loop e (strftime_ymd_hm now) [] (snoozed_items st) []") auto
  from snoozed_loop_prefix [OF l] l show ?thesis by (simp add: check_snoozed_def)
qed

lemma first_snooze_failure_Some:
  "first_snooze_failure e current k todo = Some q \<Longrightarrow>
     q < length todo \<and> snooze_fails e current (k + q) (todo ! q)
     \<and> (\<forall>j<q. \<not> snooze_fails e current (k + j) (todo ! j))"
proof (induction todo arbitrary: k q)
  case Nil
  then show ?case by simp
next
  case (Cons item todo)
  show ?case
  proof (cases "snooze_fails e current k item")
    case True
    with Cons.prems show ?thesis by simp
  next
    case False
    with Cons.prems obtain q' where q': "first_snooze_failure e current (Suc k) todo = Some q'"
      "q = Suc q'" by auto
    from Cons.IH [OF q'(1)] have ih: "q' < length todo"
      "snooze_fails e current (Suc k + q') (todo ! q')"
      "\<forall>j<q'. \<not> snooze_fails e current (Suc k + j) (todo ! j)" by simp_all
    have "\<not> snooze_fails e current (k + j) ((item # todo) ! j)" if "j < q" for j
      using that False ih(3) q'(2) by (cases j) simp_all
    with ih q'(2) show ?thesis by simp
  qed
qed

lemma snoozed_no_failure:
  "first_snooze_failure e current (length seen) todo = None \<Longrightarrow>
   check_snoozed_loop e current seen todo calls
     = (Returned, calls @ snoozed_alerts current (length seen) todo,
        seen @ map (after_snooze_scan current) todo)"
proof (induction todo arbitrary: seen calls)
  case Nil
  then show ?case by simp
next
  case (Cons item todo)
  from Cons.prems have nf: "\<not> snooze_fails e current (length seen) item"
    and n: "first_snooze_failure e current (Suc (length seen)) todo = None"
    by (auto split: if_splits)
  show ?case
  proof (cases "snooze_due current item")
    case True
    with nf have nr: "\<not> alert_raises e (length seen)" by (simp add: snooze_fails_def)
    from Cons.IH [of "seen @ [item\<lparr>sn_active := False\<rparr>]"
        "calls @ [(length seen, snoozed_alert item)]"] n True nr
    show ?thesis by (simp add: after_snooze_scan_def snooze_due_def)
  next
    case False
    from Cons.IH [of "seen @ [item]" calls] n False
    show ?thesis by (auto simp: after_snooze_scan_def snooze_due_def)
  qed
qed

lemma snoozed_failure:
  "first_snooze_failure e current (length seen) todo = Some q \<Longrightarrow>
   check_snoozed_loop e current seen todo calls
     = (Raised, calls @ snoozed_alerts current (length seen) (take q todo),
        seen @ map (after_snooze_scan current) (take q todo) @ drop q todo)"
proof (induction todo arbitrary: seen calls q)
  case Nil
  then show ?case by simp
next
  case (Cons item todo)
  show ?case
  proof (cases "snooze_fails e current (length seen) item")
    case True
    with Cons.prems have "q = 0" by simp
    with True show ?thesis by (simp add: snooze_fails_def snooze_due_def)
  next
    case False
    with Cons.prems obtain q' where
      n: "first_snooze_failure e current (Suc (length seen)) todo = Some q'" and q: "q = Suc q'"
      by auto
    show ?thesis
    proof (cases "snooze_due current item")
      case True
      with False have nr: "\<not> alert_raises e (length seen)" by (simp add: snooze_fails_def)
      from Cons.IH [of "seen @ [item\<lparr>sn_active := False\<rparr>]" q'
          "calls @ [(length seen, snoozed_alert item)]"] n True nr q
      show ?thesis by (simp add: after_snooze_scan_def snooze_due_def)
    next
      case nd: False
      from Cons.IH [of "seen @ [item]" q' calls] n nd q
      show ?thesis by (auto simp: after_snooze_scan_def snooze_due_def)
    qed
  qed
qed

lemma due_alerts_after:
  "p < j \<Longrightarrow> calls_for j (due_alerts e cd ct 0 (take p xs) @ failing_call e cd ct p r) = []"
  by (auto simp: calls_for_append calls_for_due_alerts calls_for_failing_call)

text \<open>
  Claim C8, as amended. Failures are isolated per tick, not per item. No exception ends the
  monitor loop: it runs every period for which \<^verbatim>\<open>self.running\<close> holds. A scan of
  \<^verbatim>\<open>check_reminders\<close> raises exactly when the body of its loop raises for some reminder,
  and it ends at the first such reminder, at position \<open>p\<close>: the reminders before \<open>p\<close> were
  all handled without exception and are left, with their alerts, as a complete scan
  leaves them; at \<open>p\<close> the alert is counted and the reminder deactivated only when the
  alert had returned and it was the write that failed; the reminders after \<open>p\<close> are not
  examined, they stay as they were and have no alert, due or not. When no body raises the
  scan returns and has handled the whole list. The same holds for \<^verbatim>\<open>check_snoozed\<close>,
  which ends at the first due item whose alert raises. When \<^verbatim>\<open>check_reminders\<close> raises,
  \<^verbatim>\<open>check_snoozed\<close> does not run in that period.
\<close>

theorem tick_failure_ends_the_tick:
  "length (fst (monitor_loop ticks st)) = length (takeWhile tk_running ticks)
   \<and> (reminders st = PList xs
        \<and> first_failure e (strftime_ymd now) (strftime_hm now) 0 xs = None \<longrightarrow>
          fst (check_reminders e now st) = Returned
        \<and> fst (snd (check_reminders e now st))
            = due_alerts e (strftime_ymd now) (strftime_hm now) 0 xs
        \<and> reminders (snd (snd (check_reminders e now st)))
            = PList (map (after_scan (strftime_ymd now) (strftime_hm now)) xs))
   \<and> (reminders st = PList xs
        \<and> first_failure e (strftime_ymd now) (strftime_hm now) 0 xs = Some p \<longrightarrow>
          p < length xs
        \<and> \<not> handled e (strftime_ymd now) (strftime_hm now) p (xs ! p)
        \<and> (\<forall>j<p. handled e (strftime_ymd now) (strftime_hm now) j (xs ! j))
        \<and> fst (check_reminders e now st) = Raised
        \<and> fst (snd (check_reminders e now st))
            = due_alerts e (strftime_ymd now) (strftime_hm now) 0 (take p xs)
              @ failing_call e (strftime_ymd now) (strftime_hm now) p (xs ! p)
        \<and> reminders (snd (snd (check_reminders e now st)))
            = PList (map (after_scan (strftime_ymd now) (strftime_hm now)) (take p xs)
                @ failing_item e (strftime_ymd now) (strftime_hm now) p (xs ! p)
                # drop (Suc p) xs)
        \<and> (\<forall>j>p. calls_for j (fst (snd (check_reminders e now st))) = []))
   \<and> (first_snooze_failure e (strftime_ymd_hm now) 0 (snoozed_items st) = None \<longrightarrow>
          fst (check_snoozed e now st) = Returned
        \<and> fst (snd (check_snoozed e now st))
            = snoozed_alerts (strftime_ymd_hm now) 0 (snoozed_items st)
        \<and> snoozed_items (snd (snd (check_snoozed e now st)))
            = map (after_snooze_scan (strftime_ymd_hm now)) (snoozed_items st))
   \<and> (first_snooze_failure e (strftime_ymd_hm now) 0 (snoozed_items st) = Some q \<longrightarrow>
          q < length (snoozed_items st)
        \<and> snooze_fails e (strftime_ymd_hm now) q (snoozed_items st ! q)
        \<and> (\<forall>j<q. \<not> snooze_fails e (strftime_ymd_hm now) j (snoozed_items st ! j))
        \<and> fst (check_snoozed e now st) = Raised
        \<and> fst (snd (check_snoozed e now st))
            = snoozed_alerts (strftime_ymd_hm now) 0 (take q (snoozed_items st))
        \<and> snoozed_items (snd (snd (check_snoozed e now st)))
            = map (after_snooze_scan (strftime_ymd_hm now)) (take q (snoozed_items st))
              @ drop q (snoozed_items st))
   \<and> (fst (check_reminders (tk_env_reminders tk) (tk_now_reminders tk) st) = Raised \<longrightarrow>
        snd (snd (fst (tick_body tk st))) = []
        \<and> snoozed_items (snd (tick_body tk st)) = snoozed_items st)"
proof (intro conjI impI)
  show "length (fst (monitor_loop ticks st)) = length (takeWhile tk_running ticks)"
    by (rule monitor_loop_periods)
next
  assume a: "reminders st = PList xs
        \<and> first_failure e (strftime_ymd now) (strftime_hm now) 0 xs = None"
  from check_reminders_no_failure [of st xs e now] a
  show "fst (check_reminders e now st) = Returned"
    and "fst (snd (check_reminders e now st))
            = due_alerts e (strftime_ymd now) (strftime_hm now) 0 xs"
    and "reminders (snd (snd (check_reminders e now st)))
            = PList (map (after_scan (strftime_ymd now) (strftime_hm now)) xs)"
    by auto
next
  assume a: "reminders st = PList xs
        \<and> first_failure e (strftime_ymd now) (strftime_hm now) 0 xs = Some p"
  from first_failure_Some [of e "strftime_ymd now" "strftime_hm now" 0 xs p] a
  show "p < length xs" and "\<not> handled e (strftime_ymd now) (strftime_hm now) p (xs ! p)"
    and "\<forall>j<p. handled e (strftime_ymd now) (strftime_hm now) j (xs ! j)"
    by simp_all
  from check_reminders_failure [of st xs e now p] a
  show "fst (check_reminders e now st) = Raised"
    and c: "fst (snd (check_reminders e now st))
            = due_alerts e (strftime_ymd now) (strftime_hm now) 0 (take p xs)
              @ failing_call e (strftime_ymd now) (strftime_hm now) p (xs ! p)"
    and "reminders (snd (snd (check_reminders e now st)))
            = PList (map (after_scan (strftime_ymd now) (strftime_hm now)) (take p xs)
                @ failing_item e (strftime_ymd now) (strftime_hm now) p (xs ! p)
                # drop (Suc p) xs)"
    by auto
  show "\<forall>j>p. calls_for j (fst (snd (check_reminders e now st))) = []"
    unfolding c by (simp add: due_alerts_after)
next
  assume a: "first_snooze_failure e (strftime_ymd_hm now) 0 (snoozed_items st) = None"
  from snoozed_no_failure [of e "strftime_ymd_hm now" "[]" "snoozed_items st" "[]"] a
  show "fst (check_snoozed e now st) = Returned"
    and "fst (snd (check_snoozed e now st))
            = snoozed_alerts (strftime_ymd_hm now) 0 (snoozed_items st)"
    and "snoozed_items (snd (snd (check_snoozed e now st)))
            = map (after_snooze_scan (strftime_ymd_hm now)) (snoozed_items st)"
    by (simp_all add: check_snoozed_def)
next
  assume a: "first_snooze_failure e (strftime_ymd_hm now) 0 (snoozed_items st) = Some q"
  from first_snooze_failure_Some [OF a]
  show "q < length (snoozed_items st)"
    and "snooze_fails e (strftime_ymd_hm now) q (snoozed_items st ! q)"
    and "\<forall>j<q. \<not> snooze_fails e (strftime_ymd_hm now) j (snoozed_items st ! j)"
    by simp_all
  from snoozed_failure [of e "strftime_ymd_hm now" "[]" "snoozed_items st" q "[]"] a
  show "fst (check_snoozed e now st) = Raised"
    and "fst (snd (check_snoozed e now st))
            = snoozed_alerts (strftime_ymd_hm now) 0 (take q (snoozed_items st))"
    and "snoozed_items (snd (snd (check_snoozed e now st)))
            = map (after_snooze_scan (strftime_ymd_hm now)) (take q (snoozed_items st))
              @ drop q (snoozed_items st)"
    by (simp_all add: check_snoozed_def)
next
  assume "fst (check_reminders (tk_env_reminders tk) (tk_now_reminders tk) st) = Raised"
  from tick_body_raised [OF this]
  show "snd (snd (fst (tick_body tk st))) = []"
    and "snoozed_items (snd (tick_body tk st)) = snoozed_items st" by simp_all
qed

lemma call_bob_due: "due ''2024-06-01'' ''14:30'' (PDict call_bob) = Some True"
  by (simp add: due_def call_bob_def)

lemma call_bob_alert_args: "reminder_alert quiet_env (PDict call_bob) = Some call_bob_alert"
  by (simp add: reminder_alert_def call_bob_def call_bob_alert_def format_value_def dict_get_def)

lemma quiet_tick_fields:
  "tk_running quiet_tick" "tk_now_reminders quiet_tick = half_past_two"
  "tk_env_reminders quiet_tick = quiet_env"
  by (simp_all add: quiet_tick_def)

lemma untitled_tick: "tick_body quiet_tick untitled_app = ((Raised, [], []), untitled_app)"
  by (simp add: tick_body_def quiet_tick_fields untitled_scan)

lemma untitled_loop:
  "monitor_loop [quiet_tick, quiet_tick] untitled_app
     = ([(Raised, [], []), (Raised, [], [])], untitled_app)"
  by (simp add: quiet_tick_fields untitled_tick)

lemma pay_rent_due: "due ''2024-06-01'' ''14:30'' (PDict pay_rent) = Some True"
  by (simp add: due_def pay_rent_def)

lemma two_due_scan:
  "check_reminders first_alert_fails half_past_two two_due_app = (Raised, [], two_due_app)"
  by (simp add: check_reminders_def two_due_app_def fmt_date fmt_time due_def
      reminder_alert_def call_bob_def first_alert_fails_def)

text \<open>
  Claim C8 as stated fails. The document holds a reminder without a title before
  "Call Bob". At 14:30 "Call Bob" is due and its alert can be built, but each period
  of the monitor loop ends with the KeyError of the first reminder: no alert is dispatched and
  the store stays as it was. Likewise, with "Call Bob" and "Pay rent" both well formed
  and due, the scan ends when the alert of "Call Bob" raises, and "Pay rent" is not
  dispatched.
\<close>

theorem bad_entry_halts_delivery:
  "app_init (Doc untitled_document) = (Returned, untitled_app)
   \<and> reminders untitled_app = PList [PDict untitled, PDict call_bob]
   \<and> due (strftime_ymd half_past_two) (strftime_hm half_past_two) (PDict call_bob) = Some True
   \<and> reminder_alert quiet_env (PDict call_bob) = Some call_bob_alert
   \<and> monitor_loop [quiet_tick, quiet_tick] untitled_app
       = ([(Raised, [], []), (Raised, [], [])], untitled_app)
   \<and> reminders two_due_app = PList [PDict call_bob, PDict pay_rent]
   \<and> due (strftime_ymd half_past_two) (strftime_hm half_past_two) (PDict pay_rent) = Some True
   \<and> check_reminders first_alert_fails half_past_two two_due_app = (Raised, [], two_due_app)"
proof -
  have "reminders untitled_app = PList [PDict untitled, PDict call_bob]"
    by (simp add: untitled_app_def)
  moreover have "reminders two_due_app = PList [PDict call_bob, PDict pay_rent]"
    by (simp add: two_due_app_def)
  ultimately show ?thesis
    unfolding untitled_loop untitled_init two_due_scan
    by (simp add: fmt_date fmt_time call_bob_due call_bob_alert_args pay_rent_due)
qed

lemma untitled_due: "due ''2024-06-01'' ''14:30'' (PDict untitled) = Some True"
  by (simp add: due_def untitled_def)

lemma untitled_no_alert: "reminder_alert e (PDict untitled) = None"
  by (simp add: reminder_alert_def untitled_def)

lemma pay_rent_alert: "reminder_alert quiet_env (PDict pay_rent) \<noteq> None"
  by (simp add: reminder_alert_def pay_rent_def)

lemma call_bob_handled: "handled quiet_env ''2024-06-01'' ''14:30'' 0 (PDict call_bob)"
proof -
  have "\<not> alert_raises quiet_env 0" "disk_at quiet_env 0 = Disk_ok"
    by (simp_all add: quiet_env_def)
  then show ?thesis
    by (simp add: handled_def alert_returns_def call_bob_due call_bob_alert_args)
qed

lemma untitled_not_handled: "\<not> handled e ''2024-06-01'' ''14:30'' j (PDict untitled)"
  by (simp add: handled_def alert_returns_def untitled_due untitled_no_alert)

lemma untitled_between_failure:
  "first_failure quiet_env (strftime_ymd half_past_two) (strftime_hm half_past_two) 0
     [PDict call_bob, PDict untitled, PDict pay_rent] = Some 1"
  by (simp add: fmt_date fmt_time call_bob_handled untitled_not_handled)

lemma call_bob_deactivated: "deactivated (PDict call_bob) = PDict call_bob_done"
  by (simp add: deactivated_def call_bob_def call_bob_done_def)

lemma fmt_stamp: "strftime_ymd_hm half_past_two = ''2024-06-01 14:30''"
  by (simp add: strftime_ymd_hm_def fmt_date fmt_time)

lemma snoozed_bob_due: "snooze_due ''2024-06-01 14:30'' snoozed_bob"
  by (simp add: snooze_due_def snoozed_bob_def)

lemma call_bob_alone:
  "first_failure quiet_env (strftime_ymd half_past_two) (strftime_hm half_past_two) 0
     [PDict call_bob] = None"
  by (simp add: fmt_date fmt_time call_bob_handled)

lemma snoozed_quiet:
  "first_snooze_failure quiet_env (strftime_ymd_hm half_past_two) 0 (snoozed_items snoozed_app)
     = None"
  by (simp add: fmt_stamp snoozed_app_def snooze_fails_def quiet_env_def)

lemma snoozed_failing:
  "first_snooze_failure first_alert_fails (strftime_ymd_hm half_past_two) 0
     (snoozed_items snoozed_app) = Some 0"
  by (simp add: fmt_stamp snoozed_app_def snooze_fails_def snoozed_bob_due first_alert_fails_def)

theorem tick_failure_ends_the_tick_witness:
  "length (fst (monitor_loop [quiet_tick, quiet_tick] untitled_app)) = 2
   \<and> first_failure quiet_env (strftime_ymd half_past_two) (strftime_hm half_past_two) 0
        [PDict call_bob] = None
   \<and> fst (check_reminders quiet_env half_past_two call_bob_app) = Returned
   \<and> fst (snd (check_reminders quiet_env half_past_two call_bob_app)) = [(0, call_bob_alert)]
   \<and> reminders (snd (snd (check_reminders quiet_env half_past_two call_bob_app)))
        = PList [PDict call_bob_done]
   \<and> first_failure quiet_env (strftime_ymd half_past_two) (strftime_hm half_past_two) 0
        [PDict call_bob, PDict untitled, PDict pay_rent] = Some 1
   \<and> fst (check_reminders quiet_env half_past_two untitled_between_app) = Raised
   \<and> fst (snd (check_reminders quiet_env half_past_two untitled_between_app))
        = [(0, call_bob_alert)]
   \<and> reminders (snd (snd (check_reminders quiet_env half_past_two untitled_between_app)))
        = PList [PDict call_bob_done, PDict untitled, PDict pay_rent]
   \<and> calls_for 2 (fst (snd (check_reminders quiet_env half_past_two untitled_between_app))) = []
   \<and> first_snooze_failure quiet_env (strftime_ymd_hm half_past_two) 0
        (snoozed_items snoozed_app) = None
   \<and> fst (check_snoozed quiet_env half_past_two snoozed_app) = Returned
   \<and> fst (snd (check_snoozed quiet_env half_past_two snoozed_app))
        = [(0, snoozed_alert snoozed_bob)]
   \<and> snoozed_items (snd (snd (check_snoozed quiet_env half_past_two snoozed_app)))
        = [snoozed_bob\<lparr>sn_active := False\<rparr>]
   \<and> first_snooze_failure first_alert_fails (strftime_ymd_hm half_past_two) 0
        (snoozed_items snoozed_app) = Some 0
   \<and> fst (check_snoozed first_alert_fails half_past_two snoozed_app) = Raised
   \<and> fst (snd (check_snoozed first_alert_fails half_past_two snoozed_app)) = []
   \<and> snoozed_items (snd (snd (check_snoozed first_alert_fails half_past_two snoozed_app)))
        = [snoozed_bob]
   \<and> snd (snd (fst (tick_body quiet_tick untitled_app))) = []"
proof -
  let ?xs = "[PDict call_bob, PDict untitled, PDict pay_rent]"
  let ?cd = "strftime_ymd half_past_two" and ?ct = "strftime_hm half_past_two"
  let ?cur = "strftime_ymd_hm half_past_two"
  have r: "reminders untitled_between_app = PList ?xs"
    by (simp add: untitled_between_app_def)
  have r1: "reminders call_bob_app = PList [PDict call_bob]"
    by (simp add: call_bob_app_def)
  have f: "fst (check_reminders (tk_env_reminders quiet_tick) (tk_now_reminders quiet_tick) untitled_app) = Raised"
    by (simp add: quiet_tick_fields untitled_scan)
  have n: "length (takeWhile tk_running [quiet_tick, quiet_tick]) = 2"
    by (simp add: quiet_tick_fields)
  note T1 = tick_failure_ends_the_tick [of "[quiet_tick, quiet_tick]" untitled_app
      "[]" quiet_env half_past_two 0 0 quiet_tick]
  note T2 = tick_failure_ends_the_tick [of "[]" untitled_between_app ?xs quiet_env half_past_two
      1 0 quiet_tick]
  note T3 = tick_failure_ends_the_tick [of "[]" call_bob_app "[PDict call_bob]" quiet_env
      half_past_two 0 0 quiet_tick]
  note T4 = tick_failure_ends_the_tick [of "[]" snoozed_app "[]" quiet_env
      half_past_two 0 0 quiet_tick]
  note T5 = tick_failure_ends_the_tick [of "[]" snoozed_app "[]" first_alert_fails
      half_past_two 0 0 quiet_tick]
  from T1 have "length (fst (monitor_loop [quiet_tick, quiet_tick] untitled_app))
      = length (takeWhile tk_running [quiet_tick, quiet_tick])" by (rule conjunct1)
  with n have a: "length (fst (monitor_loop [quiet_tick, quiet_tick] untitled_app)) = 2"
    by (simp only:)
  from T1 f have c: "snd (snd (fst (tick_body quiet_tick untitled_app))) = []" by blast
  from T2 r untitled_between_failure
  have o: "fst (check_reminders quiet_env half_past_two untitled_between_app) = Raised"
    and cs: "fst (snd (check_reminders quiet_env half_past_two untitled_between_app))
        = due_alerts quiet_env ?cd ?ct 0 (take 1 ?xs) @ failing_call quiet_env ?cd ?ct 1 (?xs ! 1)"
    and rs: "reminders (snd (snd (check_reminders quiet_env half_past_two untitled_between_app)))
        = PList (map (after_scan ?cd ?ct) (take 1 ?xs) @ failing_item quiet_env ?cd ?ct 1 (?xs ! 1)
            # drop (Suc 1) ?xs)"
    and af: "\<forall>j>1. calls_for j (fst (snd (check_reminders quiet_env half_past_two untitled_between_app))) = []"
    by blast+
  have cs': "due_alerts quiet_env ?cd ?ct 0 (take 1 ?xs) @ failing_call quiet_env ?cd ?ct 1 (?xs ! 1)
      = [(0, call_bob_alert)]"
    by (simp add: fmt_date fmt_time call_bob_due call_bob_alert_args failing_call_def
        alert_returns_def untitled_no_alert)
  have rs': "map (after_scan ?cd ?ct) (take 1 ?xs) @ failing_item quiet_env ?cd ?ct 1 (?xs ! 1)
            # drop (Suc 1) ?xs = [PDict call_bob_done, PDict untitled, PDict pay_rent]"
    by (simp add: fmt_date fmt_time after_scan_def call_bob_due call_bob_deactivated
        failing_item_def alert_returns_def untitled_no_alert)
  from af have a2: "calls_for 2 (fst (snd (check_reminders quiet_env half_past_two untitled_between_app))) = []"
    by simp
  from T3 r1 call_bob_alone
  have o3: "fst (check_reminders quiet_env half_past_two call_bob_app) = Returned"
    and cs3: "fst (snd (check_reminders quiet_env half_past_two call_bob_app))
        = due_alerts quiet_env ?cd ?ct 0 [PDict call_bob]"
    and rs3: "reminders (snd (snd (check_reminders quiet_env half_past_two call_bob_app)))
        = PList (map (after_scan ?cd ?ct) [PDict call_bob])"
    by blast+
  have cs3': "due_alerts quiet_env ?cd ?ct 0 [PDict call_bob] = [(0, call_bob_alert)]"
    by (simp add: fmt_date fmt_time call_bob_due call_bob_alert_args)
  have rs3': "map (after_scan ?cd ?ct) [PDict call_bob] = [PDict call_bob_done]"
    by (simp add: fmt_date fmt_time after_scan_def call_bob_due call_bob_deactivated)
  from T4 snoozed_quiet
  have o4: "fst (check_snoozed quiet_env half_past_two snoozed_app) = Returned"
    and cs4: "fst (snd (check_snoozed quiet_env half_past_two snoozed_app))
        = snoozed_alerts ?cur 0 (snoozed_items snoozed_app)"
    and rs4: "snoozed_items (snd (snd (check_snoozed quiet_env half_past_two snoozed_app)))
        = map (after_snooze_scan ?cur) (snoozed_items snoozed_app)"
    by blast+
  have cs4': "snoozed_alerts ?cur 0 (snoozed_items snoozed_app) = [(0, snoozed_alert snoozed_bob)]"
    by (simp add: fmt_stamp snoozed_app_def snoozed_bob_due)
  have rs4': "map (after_snooze_scan ?cur) (snoozed_items snoozed_app)
      = [snoozed_bob\<lparr>sn_active := False\<rparr>]"
    by (simp add: fmt_stamp snoozed_app_def after_snooze_scan_def snoozed_bob_due)
  from T5 snoozed_failing
  have o5: "fst (check_snoozed first_alert_fails half_past_two snoozed_app) = Raised"
    and cs5: "fst (snd (check_snoozed first_alert_fails half_past_two snoozed_app))
        = snoozed_alerts ?cur 0 (take 0 (snoozed_items snoozed_app))"
    and rs5: "snoozed_items (snd (snd (check_snoozed first_alert_fails half_past_two snoozed_app)))
        = map (after_snooze_scan ?cur) (take 0 (snoozed_items snoozed_app))
          @ drop 0 (snoozed_items snoozed_app)"
    by blast+
  have cs5': "snoozed_alerts ?cur 0 (take 0 (snoozed_items snoozed_app)) = []" by simp
  have rs5': "map (after_snooze_scan ?cur) (take 0 (snoozed_items snoozed_app))
          @ drop 0 (snoozed_items snoozed_app) = [snoozed_bob]"
    by (simp add: snoozed_app_def)
  from a call_bob_alone o3 cs3 [unfolded cs3'] rs3 [unfolded rs3']
    untitled_between_failure o cs [unfolded cs'] rs [unfolded rs'] a2
    snoozed_quiet o4 cs4 [unfolded cs4'] rs4 [unfolded rs4']
    snoozed_failing o5 cs5 [unfolded cs5'] rs5 [unfolded rs5'] c
  show ?thesis by (intro conjI)
qed

section \<open>A reminder that is due\<close>

text \<open>
  Claim C1, as amended. Let the reminder at position \<open>i\<close> of the list be active, with date
  and time equal to the minute strings of the tick, and let no exception be raised in the
  scan before its alert has returned: the body of the loop ends without exception for
  every reminder before \<open>i\<close>, the arguments of the alert of \<open>i\<close> can be read and the call
  does not raise. Then the scan, whether it returns or raises later, has dispatched
  exactly one alert for that reminder, with the arguments read from it, and has set its
  \<^verbatim>\<open>'active'\<close> to \<^verbatim>\<open>False\<close>; no later scan, in the same minute or at any other time and
  whatever fails around it, dispatches an alert for that reminder again.
\<close>

theorem check_reminders_fires_once:
  assumes "reminders st = PList xs" and "i < length xs"
    and "getitem (xs ! i) ''active'' = Some a" and "truthy a"
    and "getitem (xs ! i) ''date'' = Some (PStr (strftime_ymd now))"
    and "getitem (xs ! i) ''time'' = Some (PStr (strftime_hm now))"
    and "\<forall>j<i. handled e (strftime_ymd now) (strftime_hm now) j (xs ! j)"
    and "reminder_alert e (xs ! i) \<noteq> None" and "\<not> alert_raises e i"
  shows "\<exists>oc calls st' al xs'. check_reminders e now st = (oc, calls, st')
        \<and> reminder_alert e (xs ! i) = Some al \<and> calls_for i calls = [al]
        \<and> reminders st' = PList xs' \<and> length xs' = length xs
        \<and> setitem (xs ! i) ''active'' (PBool False) = Some (xs' ! i)
        \<and> getitem (xs' ! i) ''active'' = Some (PBool False)
        \<and> (\<forall>e2 now2. calls_for i (fst (snd (check_reminders e2 now2 st'))) = [])"
proof -
  let ?cd = "strftime_ymd now" and ?ct = "strftime_hm now"
  have d: "due ?cd ?ct (xs ! i) = Some True"
    using assms(3-6) by (auto simp: due_True_iff)
  from assms(8) obtain al where al: "reminder_alert e (xs ! i) = Some al" by auto
  obtain oc calls st' where run: "check_reminders e now st = (oc, calls, st')"
    by (cases "check_reminders e now st") auto
  from dispatched_before_failure [OF assms(1,2) d assms(7) al assms(9) run] obtain xs' where
    x: "calls_for i calls = [al]" "reminders st' = PList xs'" "length xs' = length xs"
       "xs' ! i = deactivated (xs ! i)" by blast
  from d obtain kvs where kvs: "xs ! i = PDict kvs" using due_True_dict by blast
  have s: "setitem (xs ! i) ''active'' (PBool False) = Some (xs' ! i)"
    by (simp add: x(4) kvs deactivated_dict)
  have g: "getitem (xs' ! i) ''active'' = Some (PBool False)"
    by (simp add: x(4) kvs deactivated_dict map_of_dict_set_same)
  have again: "calls_for i (fst (snd (check_reminders e2 now2 st'))) = []" for e2 now2
  proof -
    obtain oc2 calls2 st2 where r2: "check_reminders e2 now2 st' = (oc2, calls2, st2)"
      by (cases "check_reminders e2 now2 st'") auto
    have "due (strftime_ymd now2) (strftime_hm now2) (xs' ! i) = Some False"
      unfolding x(4) using d by (rule due_deactivated)
    then have nd: "due (strftime_ymd now2) (strftime_hm now2) (xs' ! i) \<noteq> Some True" by simp
    from check_reminders_off_minute [OF x(2) _ nd r2] assms(2) x(3) r2 show ?thesis by auto
  qed
  from run al x s g again show ?thesis by blast
qed

theorem check_reminders_fires_once_witness:
  "check_reminders quiet_env half_past_two call_bob_app
     = (Returned, [(0, call_bob_alert)], call_bob_app_done)
   \<and> handled quiet_env (strftime_ymd half_past_two) (strftime_hm half_past_two) 0 (PDict call_bob)
   \<and> (\<exists>oc calls st' al xs'.
        check_reminders quiet_env half_past_two two_due_app = (oc, calls, st')
      \<and> reminder_alert quiet_env (PDict pay_rent) = Some al \<and> calls_for 1 calls = [al]
      \<and> reminders st' = PList xs' \<and> length xs' = 2
      \<and> getitem (xs' ! 1) ''active'' = Some (PBool False)
      \<and> (\<forall>e2 now2. calls_for 1 (fst (snd (check_reminders e2 now2 st'))) = []))"
proof -
  let ?xs = "[PDict call_bob, PDict pay_rent]"
  have r: "reminders two_due_app = PList ?xs" by (simp add: two_due_app_def)
  have h: "handled quiet_env (strftime_ymd half_past_two) (strftime_hm half_past_two) 0 (PDict call_bob)"
    by (simp add: fmt_date fmt_time call_bob_handled)
  have b: "\<forall>j<1. handled quiet_env (strftime_ymd half_past_two) (strftime_hm half_past_two) j (?xs ! j)"
    using h by simp
  have "\<exists>oc calls st' al xs'.
          check_reminders quiet_env half_past_two two_due_app = (oc, calls, st')
        \<and> reminder_alert quiet_env (?xs ! 1) = Some al \<and> calls_for 1 calls = [al]
        \<and> reminders st' = PList xs' \<and> length xs' = length ?xs
        \<and> setitem (?xs ! 1) ''active'' (PBool False) = Some (xs' ! 1)
        \<and> getitem (xs' ! 1) ''active'' = Some (PBool False)
        \<and> (\<forall>e2 now2. calls_for 1 (fst (snd (check_reminders e2 now2 st'))) = [])"
    by (rule check_reminders_fires_once [OF r _ _ _ _ _ b, where a = "PBool True"])
      (simp_all add: pay_rent_def fmt_date fmt_time reminder_alert_def quiet_env_def)
  then have "\<exists>oc calls st' al xs'.
        check_reminders quiet_env half_past_two two_due_app = (oc, calls, st')
      \<and> reminder_alert quiet_env (PDict pay_rent) = Some al \<and> calls_for 1 calls = [al]
      \<and> reminders st' = PList xs' \<and> length xs' = 2
      \<and> getitem (xs' ! 1) ''active'' = Some (PBool False)
      \<and> (\<forall>e2 now2. calls_for 1 (fst (snd (check_reminders e2 now2 st'))) = [])"
    by auto
  with call_bob_scan h show ?thesis by (intro conjI)
qed

text \<open>
  Claim C1 as stated fails. "Pay rent" is active and its date and time are those of the
  tick, but the alert of "Call Bob" before it raises: the scan ends there, "Pay rent"
  is not dispatched and stays active. The same happens to "Call Bob" behind the reminder
  without a title, with nothing failing around the scan.
\<close>

theorem due_reminder_not_dispatched:
  "reminders two_due_app = PList [PDict call_bob, PDict pay_rent]
   \<and> getitem (PDict pay_rent) ''active'' = Some (PBool True)
   \<and> getitem (PDict pay_rent) ''date'' = Some (PStr (strftime_ymd half_past_two))
   \<and> getitem (PDict pay_rent) ''time'' = Some (PStr (strftime_hm half_past_two))
   \<and> check_reminders first_alert_fails half_past_two two_due_app = (Raised, [], two_due_app)
   \<and> calls_for 1 (fst (snd (check_reminders first_alert_fails half_past_two two_due_app))) = []
   \<and> reminders untitled_app = PList [PDict untitled, PDict call_bob]
   \<and> getitem (PDict call_bob) ''active'' = Some (PBool True)
   \<and> getitem (PDict call_bob) ''date'' = Some (PStr (strftime_ymd half_past_two))
   \<and> getitem (PDict call_bob) ''time'' = Some (PStr (strftime_hm half_past_two))
   \<and> check_reminders quiet_env half_past_two untitled_app = (Raised, [], untitled_app)
   \<and> calls_for 1 (fst (snd (check_reminders quiet_env half_past_two untitled_app))) = []"
  unfolding two_due_scan untitled_scan
  by (simp add: two_due_app_def untitled_app_def fmt_date fmt_time pay_rent_def call_bob_def
      calls_for_def)

section \<open>Reminders added at the same clock reading\<close>

lemma call_bob_added:
  "add_reminder_gui Disk_ok 1717250000000 call_bob_form (fresh_app Missing)
   = (Returned, call_bob_app\<lparr>data_file := Doc (document call_bob_app)\<rparr>)"
  apply (simp add: add_reminder_gui_def call_bob_form_def fresh_app_def Let_def strip_def is_space_def new_reminder_def append_reminder_def save_data_def call_bob_app_def call_bob_def document_def)
  apply (simp add: strftime_ymd_def get_24hour_time_def format_02d_def zfill_def dec.simps digit_def)
  done

lemma pay_rent_new:
  "new_reminder 1717250000000 ''Pay rent'' pay_rent_form 2 30 = pay_rent"
  apply (simp add: new_reminder_def pay_rent_form_def call_bob_form_def pay_rent_def strip_def)
  apply (simp add: strftime_ymd_def get_24hour_time_def format_02d_def zfill_def dec.simps digit_def)
  done

lemma call_bob_new:
  "new_reminder 1717250000000 ''Call Bob'' call_bob_form 2 30 = call_bob"
  apply (simp add: new_reminder_def call_bob_form_def call_bob_def strip_def)
  apply (simp add: strftime_ymd_def get_24hour_time_def format_02d_def zfill_def dec.simps digit_def)
  done

lemma strip_titles: "strip ''Call Bob'' = ''Call Bob''" "strip ''Pay rent'' = ''Pay rent''"
  by (simp_all add: strip_def is_space_def)

lemma add_to_list:
  assumes "reminders st = PList xs" "pending_voice_note st = None"
    "strip (f_title f) = t" "t \<noteq> []" "f_hour f = Some h" "f_minute f = Some mi"
  shows "reminders (snd (add_reminder_gui dk c f st)) = PList (xs @ [PDict (new_reminder c t f h mi)])"
    and "pending_voice_note (snd (add_reminder_gui dk c f st)) = None"
  using assms by (simp_all add: add_reminder_gui_def append_reminder_def Let_def)

lemma form_fields:
  "strip (f_title call_bob_form) = ''Call Bob''" "f_hour call_bob_form = Some 2"
  "f_minute call_bob_form = Some 30"
  "strip (f_title pay_rent_form) = ''Pay rent''" "f_hour pay_rent_form = Some 2"
  "f_minute pay_rent_form = Some 30"
  by (simp_all add: call_bob_form_def pay_rent_form_def strip_titles)

lemma twins:
  "reminders (run_ops [Add Disk_ok 1717250000000 call_bob_form,
                       Add Disk_ok 1717250000000 pay_rent_form] (fresh_app Missing))
     = PList [PDict call_bob, PDict pay_rent]"
proof -
  let ?s1 = "snd (add_reminder_gui Disk_ok 1717250000000 call_bob_form (fresh_app Missing))"
  have a: "reminders ?s1 = PList ([] @ [PDict (new_reminder 1717250000000 ''Call Bob'' call_bob_form 2 30)])"
    by (rule add_to_list(1)) (simp_all add: fresh_app_def form_fields)
  have p: "pending_voice_note ?s1 = None"
    by (rule add_to_list(2) [where xs = "[]" and t = "''Call Bob''"]) (simp_all add: fresh_app_def form_fields)
  have "reminders (snd (add_reminder_gui Disk_ok 1717250000000 pay_rent_form ?s1))
      = PList (([] @ [PDict (new_reminder 1717250000000 ''Call Bob'' call_bob_form 2 30)])
           @ [PDict (new_reminder 1717250000000 ''Pay rent'' pay_rent_form 2 30)])"
    by (rule add_to_list(1) [OF a p]) (simp_all add: form_fields)
  then show ?thesis by (simp add: call_bob_new pay_rent_new)
qed

lemma same_twice:
  "reminders (run_ops [Add Disk_ok 1717250000000 call_bob_form,
                       Add Disk_ok 1717250000000 call_bob_form] (fresh_app Missing))
     = PList [PDict call_bob, PDict call_bob]"
proof -
  let ?s1 = "snd (add_reminder_gui Disk_ok 1717250000000 call_bob_form (fresh_app Missing))"
  have a: "reminders ?s1 = PList ([] @ [PDict (new_reminder 1717250000000 ''Call Bob'' call_bob_form 2 30)])"
    by (rule add_to_list(1)) (simp_all add: fresh_app_def form_fields)
  have p: "pending_voice_note ?s1 = None"
    by (rule add_to_list(2) [where xs = "[]" and t = "''Call Bob''"]) (simp_all add: fresh_app_def form_fields)
  have "reminders (snd (add_reminder_gui Disk_ok 1717250000000 call_bob_form ?s1))
      = PList (([] @ [PDict (new_reminder 1717250000000 ''Call Bob'' call_bob_form 2 30)])
           @ [PDict (new_reminder 1717250000000 ''Call Bob'' call_bob_form 2 30)])"
    by (rule add_to_list(1) [OF a p]) (simp_all add: form_fields)
  then show ?thesis by (simp add: call_bob_new)
qed

text \<open>
  Claim C7 as stated fails: two reminders added at the same clock reading get the same
  id.
\<close>

theorem same_clock_same_id:
  "unique_ids (fresh_app Missing)
   \<and> \<not> unique_ids (run_ops [Add Disk_ok 1717250000000 call_bob_form,
                            Add Disk_ok 1717250000000 call_bob_form] (fresh_app Missing))"
proof -
  have "unique_ids (fresh_app Missing)"
    by (simp add: unique_ids_def stored_ids_def fresh_app_def)
  moreover have "\<not> distinct (ids_of [PDict call_bob, PDict call_bob])"
    by (simp add: call_bob_def)
  ultimately show ?thesis
    unfolding unique_ids_def stored_ids_def same_twice by simp
qed

text \<open>
  Claim C4 as stated fails: after two reminders were added at the same clock reading, one
  delete by that id removes both.
\<close>

theorem delete_removes_both:
  "reminders (run_ops [Add Disk_ok 1717250000000 call_bob_form,
                       Add Disk_ok 1717250000000 pay_rent_form] (fresh_app Missing))
     = PList [PDict call_bob, PDict pay_rent]
   \<and> reminders (snd (delete_reminder Disk_ok (Row_id 1717250000000)
        (run_ops [Add Disk_ok 1717250000000 call_bob_form,
                  Add Disk_ok 1717250000000 pay_rent_form] (fresh_app Missing))))
     = PList []"
proof -
  have "reminders (snd (delete_reminder Disk_ok (Row_id 1717250000000) st)) = PList []"
    if "reminders st = PList [PDict call_bob, PDict pay_rent]" for st
    using that by (simp add: delete_reminder_def delete_body_def swallow_def call_bob_def pay_rent_def)
  with twins show ?thesis by blast
qed

section \<open>The invariant of the ids\<close>

lemma ids_of_append: "ids_of (xs @ ys) = ids_of xs @ ids_of ys"
  by (induction xs) (auto split: option.splits)

lemma ids_of_map_same:
  "(\<And>r. getitem (f r) ''id'' = getitem r ''id'') \<Longrightarrow> ids_of (map f xs) = ids_of xs"
  by (induction xs) (auto split: option.splits)

lemma after_scan_id: "getitem (after_scan cd ct r) ''id'' = getitem r ''id''"
proof (cases "due cd ct r = Some True")
  case True
  then obtain kvs where "r = PDict kvs" using due_True_dict by blast
  with True show ?thesis
    by (simp add: after_scan_def deactivated_dict map_of_dict_set_other)
next
  case False
  then show ?thesis by (simp add: after_scan_def)
qed

lemma ids_of_strings:
  "ids_of (map (\<lambda>kv. PStr (fst kv)) kvs) = []" "ids_of (map (\<lambda>c. PStr [c]) s) = []"
  by (induction kvs, simp_all) (induction s, simp_all)

lemma ids_of_py_iter:
  "py_iter (reminders st) = Some xs \<Longrightarrow> distinct (stored_ids st) \<Longrightarrow> distinct (ids_of xs)"
  by (cases "reminders st") (auto simp: stored_ids_def ids_of_strings)

lemma check_reminders_ids:
  "stored_ids (snd (snd (check_reminders e now st))) = stored_ids st"
proof -
  obtain oc calls st' where c: "check_reminders e now st = (oc, calls, st')"
    by (cases "check_reminders e now st") auto
  show ?thesis
  proof (cases "\<exists>xs. reminders st = PList xs")
    case True
    then obtain xs where r: "reminders st = PList xs" by blast
    from check_reminders_prefix [OF r c] obtain k where
      "reminders st' = PList (map (after_scan (strftime_ymd now) (strftime_hm now)) (take k xs) @ drop k xs)"
      by blast
    then have "stored_ids st' = ids_of (take k xs) @ ids_of (drop k xs)"
      by (simp add: stored_ids_def ids_of_append ids_of_map_same after_scan_id)
    also have "\<dots> = ids_of xs" by (simp add: ids_of_append [symmetric])
    finally show ?thesis using c r by (simp add: stored_ids_def)
  next
    case False
    with check_reminders_not_list [OF _ c] c show ?thesis by simp
  qed
qed

lemma ids_of_list_update:
  "i < length xs \<Longrightarrow> getitem r' ''id'' = getitem (xs ! i) ''id'' \<Longrightarrow> ids_of (xs[i := r']) = ids_of xs"
proof (induction xs arbitrary: i)
  case Nil
  then show ?case by simp
next
  case (Cons x xs)
  then show ?case by (cases i) (auto split: option.splits)
qed

lemma find_by_id_Found:
  "find_by_id n k xs = Found i r \<Longrightarrow> k \<le> i \<and> i - k < length xs \<and> xs ! (i - k) = r"
proof (induction xs arbitrary: k)
  case Nil
  then show ?case by simp
next
  case (Cons x xs)
  show ?case
  proof (cases "getitem x ''id''")
    case None
    with Cons.prems show ?thesis by simp
  next
    case (Some v)
    show ?thesis
    proof (cases "eq_int v n")
      case True
      with Some Cons.prems show ?thesis by simp
    next
      case False
      with Some Cons.prems have "find_by_id n (Suc k) xs = Found i r" by simp
      from Cons.IH [OF this] show ?thesis by (auto simp: Suc_diff_le)
    qed
  qed
qed

lemma find_by_id_strings:
  "find_by_id n k (map (\<lambda>kv. PStr (fst kv)) kvs) \<noteq> Found i r"
  "find_by_id n k (map (\<lambda>c. PStr [c]) s) \<noteq> Found i r"
  by (cases kvs, simp_all) (cases s, simp_all)

lemma found_in_list:
  assumes "py_iter (reminders st) = Some xs" and "find_by_id n 0 xs = Found i r"
  shows "reminders st = PList xs \<and> i < length xs \<and> xs ! i = r"
proof -
  from assms have "reminders st = PList xs"
    by (cases "reminders st") (auto simp: find_by_id_strings)
  with find_by_id_Found [OF assms(2)] show ?thesis by simp
qed

lemma edit_keeps_id:
  "map_of (remove_voice f r) ''id'' = map_of r ''id''"
  "map_of (save_first f r) ''id'' = map_of r ''id''"
  "map_of (save_rest f h mi r) ''id'' = map_of r ''id''"
  by (simp_all add: remove_voice_def save_first_def save_rest_def Let_def map_of_dict_set_other
      split: option.splits)

lemma put_reminder_ids:
  assumes "reminders st = PList xs" "i < length xs" "xs ! i = PDict r" "map_of r' ''id'' = map_of r ''id''"
  shows "stored_ids (put_reminder i r' xs st) = stored_ids st"
  using assms by (simp add: put_reminder_def stored_ids_def ids_of_list_update)

lemma stored_ids_save: "stored_ids (snd (save_data dk st)) = stored_ids st"
  by (simp add: stored_ids_def)

lemma edit_dialog_ids:
  assumes "reminders st = PList xs" "i < length xs" "xs ! i = PDict r"
  shows "stored_ids (snd (edit_dialog dk f i r xs st)) = stored_ids st"
  using assms
  by (auto simp: edit_dialog_def Let_def stored_ids_save put_reminder_ids edit_keeps_id
      split: option.splits)

lemma edit_reminder_ids: "stored_ids (snd (edit_reminder dk sel f st)) = stored_ids st"
proof (cases sel)
  case (Row_id n)
  show ?thesis
  proof (cases "py_iter (reminders st)")
    case None
    with Row_id show ?thesis by (simp add: edit_reminder_def)
  next
    case (Some xs)
    show ?thesis
    proof (cases "find_by_id n 0 xs")
      case (Found i x)
      from found_in_list [OF Some Found] have l: "reminders st = PList xs" "i < length xs"
        and x: "xs ! i = x" by simp_all
      show ?thesis
      proof (cases x)
        case (PDict r)
        with x have "xs ! i = PDict r" by simp
        with Row_id Some Found PDict edit_dialog_ids [OF l this, of dk f] show ?thesis
          by (simp add: edit_reminder_def)
      qed (use Row_id Some Found in \<open>simp_all add: edit_reminder_def\<close>)
    qed (use Row_id Some in \<open>simp_all add: edit_reminder_def\<close>)
  qed
qed (simp_all add: edit_reminder_def)

lemma keep_others_ids:
  "keep_others n xs = Some ys \<Longrightarrow>
     set (ids_of ys) \<subseteq> set (ids_of xs) \<and> (distinct (ids_of xs) \<longrightarrow> distinct (ids_of ys))"
proof (induction xs arbitrary: ys)
  case Nil
  then show ?case by simp
next
  case (Cons x xs)
  from Cons.prems obtain v zs where v: "getitem x ''id'' = Some v" and zs: "keep_others n xs = Some zs"
    and ys: "ys = (if eq_int v n then zs else x # zs)"
    by (auto split: option.splits)
  from Cons.IH [OF zs] v ys show ?case by auto
qed

lemma delete_reminder_ids:
  assumes "distinct (stored_ids st)"
  shows "distinct (stored_ids (snd (delete_reminder dk sel st)))"
proof (cases sel)
  case (Row_id n)
  show ?thesis
  proof (cases "py_iter (reminders st)")
    case None
    with Row_id assms show ?thesis by (simp add: delete_reminder_def delete_body_def swallow_def)
  next
    case (Some xs)
    show ?thesis
    proof (cases "keep_others n xs")
      case None
      with Row_id Some assms show ?thesis
        by (simp add: delete_reminder_def delete_body_def swallow_def)
    next
      case ys: (Some ys)
      from keep_others_ids [OF ys] ids_of_py_iter [OF Some assms] have "distinct (ids_of ys)"
        by simp
      with Row_id Some ys show ?thesis
        by (simp add: delete_reminder_def delete_body_def swallow_def stored_ids_def)
    qed
  qed
qed (use assms in \<open>simp_all add: delete_reminder_def delete_body_def swallow_def\<close>)

lemma append_reminder_ids:
  assumes "map_of r ''id'' = Some v"
  shows "stored_ids (snd (append_reminder dk r st)) = stored_ids st
       \<or> stored_ids (snd (append_reminder dk r st)) = stored_ids st @ [v]"
  using assms
  by (cases "reminders st") (simp_all add: append_reminder_def stored_ids_def ids_of_append)

lemma stored_ids_pending: "stored_ids (st\<lparr>pending_voice_note := p\<rparr>) = stored_ids st"
  by (simp add: stored_ids_def)

lemma add_reminder_ids:
  "stored_ids (snd (add_reminder_gui dk c f st)) = stored_ids st
   \<or> stored_ids (snd (add_reminder_gui dk c f st)) = stored_ids st @ [PInt c]"
proof -
  have n: "map_of (new_reminder c t f h mi) ''id'' = Some (PInt c)" for t h mi
    by (simp add: new_reminder_def)
  then have v: "map_of (dict_set ''voice_note'' p (new_reminder c t f h mi)) ''id'' = Some (PInt c)"
    for t h mi p by (simp add: map_of_dict_set_other)
  show ?thesis
    using append_reminder_ids [OF n, of dk _ _ _ st]
      append_reminder_ids [OF v, of dk _ _ _ _ "st\<lparr>pending_voice_note := None\<rparr>"]
    by (auto simp: add_reminder_gui_def Let_def stored_ids_pending split: option.splits)
qed

lemma apply_op_unique:
  assumes "unique_ids st" and "fresh_clock x st"
  shows "unique_ids (apply_op x st)"
proof (cases x)
  case (Add dk c f)
  with assms add_reminder_ids [of dk c f st] show ?thesis
    by (auto simp: unique_ids_def)
next
  case (Edit dk sel f)
  with assms show ?thesis by (simp add: unique_ids_def edit_reminder_ids)
next
  case (Delete dk sel)
  with assms show ?thesis by (simp add: unique_ids_def delete_reminder_ids)
next
  case (Check e now)
  with assms show ?thesis by (simp add: unique_ids_def check_reminders_ids)
qed

text \<open>
  Claim C7, as amended. \<^verbatim>\<open>add_reminder_gui\<close> takes the reading of the millisecond clock
  as the id and does not look at the store. Over a sequence of add, edit, delete and scan
  operations the stored ids stay pairwise distinct, provided every add meets a clock
  reading that is not an id already in the store; edit, delete and the deactivation by
  the scan never break the invariant.
\<close>

theorem unique_ids_preserved:
  assumes "unique_ids st" and "fresh_clocks ops st"
  shows "unique_ids (run_ops ops st)"
  using assms
proof (induction ops arbitrary: st)
  case Nil
  then show ?case by simp
next
  case (Cons x ops)
  from Cons.prems have "unique_ids (apply_op x st)" "fresh_clocks ops (apply_op x st)"
    by (simp_all add: apply_op_unique)
  then show ?case by (simp add: Cons.IH)
qed

lemma two_adds:
  "reminders (run_ops [Add Disk_ok 1717250000000 call_bob_form,
                       Add Disk_ok 1717250060000 pay_rent_form] (fresh_app Missing))
     = PList [PDict (new_reminder 1717250000000 ''Call Bob'' call_bob_form 2 30),
              PDict (new_reminder 1717250060000 ''Pay rent'' pay_rent_form 2 30)]"
proof -
  let ?s1 = "snd (add_reminder_gui Disk_ok 1717250000000 call_bob_form (fresh_app Missing))"
  have a: "reminders ?s1 = PList ([] @ [PDict (new_reminder 1717250000000 ''Call Bob'' call_bob_form 2 30)])"
    by (rule add_to_list(1)) (simp_all add: fresh_app_def form_fields)
  have p: "pending_voice_note ?s1 = None"
    by (rule add_to_list(2) [where xs = "[]" and t = "''Call Bob''"]) (simp_all add: fresh_app_def form_fields)
  have "reminders (snd (add_reminder_gui Disk_ok 1717250060000 pay_rent_form ?s1))
      = PList (([] @ [PDict (new_reminder 1717250000000 ''Call Bob'' call_bob_form 2 30)])
           @ [PDict (new_reminder 1717250060000 ''Pay rent'' pay_rent_form 2 30)])"
    by (rule add_to_list(1) [OF a p]) (simp_all add: form_fields)
  then show ?thesis by simp
qed

lemma one_add_ids:
  "stored_ids (apply_op (Add Disk_ok 1717250000000 call_bob_form) (fresh_app Missing))
     = [PInt 1717250000000]"
proof -
  have "reminders (snd (add_reminder_gui Disk_ok 1717250000000 call_bob_form (fresh_app Missing)))
     = PList ([] @ [PDict (new_reminder 1717250000000 ''Call Bob'' call_bob_form 2 30)])"
    by (rule add_to_list(1)) (simp_all add: fresh_app_def form_fields)
  then show ?thesis by (simp add: stored_ids_def new_reminder_def)
qed

theorem unique_ids_preserved_witness:
  "unique_ids (fresh_app Missing)
   \<and> fresh_clocks [Add Disk_ok 1717250000000 call_bob_form,
         Add Disk_ok 1717250060000 pay_rent_form, Check quiet_env half_past_two]
       (fresh_app Missing)
   \<and> stored_ids (run_ops [Add Disk_ok 1717250000000 call_bob_form,
         Add Disk_ok 1717250060000 pay_rent_form, Check quiet_env half_past_two]
       (fresh_app Missing)) = [PInt 1717250000000, PInt 1717250060000]
   \<and> unique_ids (run_ops [Add Disk_ok 1717250000000 call_bob_form,
         Add Disk_ok 1717250060000 pay_rent_form, Check quiet_env half_past_two]
       (fresh_app Missing))"
proof -
  let ?ops = "[Add Disk_ok 1717250000000 call_bob_form,
         Add Disk_ok 1717250060000 pay_rent_form, Check quiet_env half_past_two]"
  have u: "unique_ids (fresh_app Missing)"
    by (simp add: unique_ids_def stored_ids_def fresh_app_def)
  have e: "stored_ids (fresh_app Missing) = []" by (simp add: stored_ids_def fresh_app_def)
  have f: "fresh_clocks ?ops (fresh_app Missing)"
    using one_add_ids by (simp add: e del: apply_op.simps)
  have "stored_ids (run_ops ?ops (fresh_app Missing))
      = stored_ids (run_ops [Add Disk_ok 1717250000000 call_bob_form,
         Add Disk_ok 1717250060000 pay_rent_form] (fresh_app Missing))"
    by (simp add: check_reminders_ids)
  also have "\<dots> = [PInt 1717250000000, PInt 1717250060000]"
    unfolding stored_ids_def two_adds by (simp add: new_reminder_def)
  finally have i: "stored_ids (run_ops ?ops (fresh_app Missing))
      = [PInt 1717250000000, PInt 1717250060000]" .
  from u f i unique_ids_preserved [OF u f] show ?thesis by blast
qed

section \<open>Deleting, saving and editing\<close>

lemma keep_others_int_ids:
  "\<forall>r\<in>set xs. \<exists>m. getitem r ''id'' = Some (PInt m)
   \<Longrightarrow> keep_others n xs = Some (filter (\<lambda>r. getitem r ''id'' \<noteq> Some (PInt n)) xs)"
  by (induction xs) auto

lemma absent_id_filter:
  "PInt n \<notin> set (ids_of xs) \<Longrightarrow> filter (\<lambda>r. getitem r ''id'' \<noteq> Some (PInt n)) xs = xs"
  by (induction xs) (auto split: option.splits)

lemma present_id_filter:
  "\<forall>r\<in>set xs. \<exists>m. getitem r ''id'' = Some (PInt m) \<Longrightarrow> distinct (ids_of xs)
   \<Longrightarrow> PInt n \<in> set (ids_of xs)
   \<Longrightarrow> length (filter (\<lambda>r. getitem r ''id'' \<noteq> Some (PInt n)) xs) + 1 = length xs"
proof (induction xs)
  case Nil
  then show ?case by simp
next
  case (Cons x xs)
  from Cons.prems(1) obtain m where m: "getitem x ''id'' = Some (PInt m)" by auto
  show ?case
  proof (cases "m = n")
    case True
    with m Cons.prems(2) have "PInt n \<notin> set (ids_of xs)" by simp
    from absent_id_filter [OF this] m True show ?thesis by simp
  next
    case False
    with m Cons.prems have "length (filter (\<lambda>r. getitem r ''id'' \<noteq> Some (PInt n)) xs) + 1 = length xs"
      by (intro Cons.IH) auto
    with m False show ?thesis by simp
  qed
qed

text \<open>
  Claim C4, as amended. In a store whose reminders all carry an integer id, deleting by the
  id \<open>n\<close> returns without error and removes every reminder whose id is \<open>n\<close>: exactly one
  when \<open>n\<close> is stored and the stored ids are pairwise distinct, none (the list is
  unchanged) when \<open>n\<close> is not stored; a second delete with the same id changes nothing.
\<close>

theorem delete_reminder_by_id:
  assumes "reminders st = PList xs"
    and "\<forall>r\<in>set xs. \<exists>m. getitem r ''id'' = Some (PInt m)"
  shows "\<exists>st'. delete_reminder dk (Row_id n) st = (Returned, st')
      \<and> reminders st' = PList (filter (\<lambda>r. getitem r ''id'' \<noteq> Some (PInt n)) xs)
      \<and> (PInt n \<notin> set (ids_of xs) \<longrightarrow> reminders st' = reminders st)
      \<and> (PInt n \<in> set (ids_of xs) \<and> distinct (ids_of xs) \<longrightarrow>
           length (filter (\<lambda>r. getitem r ''id'' \<noteq> Some (PInt n)) xs) + 1 = length xs)
      \<and> (\<forall>dk'. fst (delete_reminder dk' (Row_id n) st') = Returned
               \<and> reminders (snd (delete_reminder dk' (Row_id n) st')) = reminders st')"
proof -
  let ?ys = "filter (\<lambda>r. getitem r ''id'' \<noteq> Some (PInt n)) xs"
  define st' where "st' = snd (save_data dk (st\<lparr>reminders := PList ?ys\<rparr>))"
  have d: "delete_reminder dk (Row_id n) st = (Returned, st')"
    using assms(1) keep_others_int_ids [OF assms(2), of n]
    by (simp add: delete_reminder_def delete_body_def swallow_def st'_def)
  have r: "reminders st' = PList ?ys" by (simp add: st'_def)
  have ys: "\<forall>r\<in>set ?ys. \<exists>m. getitem r ''id'' = Some (PInt m)" using assms(2) by simp
  have again: "fst (delete_reminder dk' (Row_id n) st') = Returned
     \<and> reminders (snd (delete_reminder dk' (Row_id n) st')) = reminders st'" for dk'
    using r keep_others_int_ids [OF ys, of n]
    by (simp add: delete_reminder_def delete_body_def swallow_def)
  from d r again assms absent_id_filter [of n xs] present_id_filter [OF assms(2), of n]
  show ?thesis by (intro exI [of _ st']) auto
qed

theorem delete_reminder_by_id_witness:
  "\<exists>st'. delete_reminder Disk_ok (Row_id 1717250000000) call_bob_app = (Returned, st')
      \<and> reminders st' = PList []
      \<and> reminders (snd (delete_reminder Disk_ok (Row_id 1717250000000) st')) = PList []"
proof -
  have r: "reminders call_bob_app = PList [PDict call_bob]" by (simp add: call_bob_app_def)
  have i: "\<forall>r\<in>set [PDict call_bob]. \<exists>m. getitem r ''id'' = Some (PInt m)"
    by (simp add: call_bob_def)
  from delete_reminder_by_id [OF r i, of Disk_ok 1717250000000] obtain st' where
    s: "delete_reminder Disk_ok (Row_id 1717250000000) call_bob_app = (Returned, st')"
       "reminders st' = PList (filter (\<lambda>r. getitem r ''id'' \<noteq> Some (PInt 1717250000000)) [PDict call_bob])"
       "\<forall>dk'. fst (delete_reminder dk' (Row_id 1717250000000) st') = Returned
               \<and> reminders (snd (delete_reminder dk' (Row_id 1717250000000) st')) = reminders st'"
    by blast
  have "filter (\<lambda>r. getitem r ''id'' \<noteq> Some (PInt 1717250000000)) [PDict call_bob] = []"
    by (simp add: call_bob_def)
  with s show ?thesis by (intro exI [of _ st']) simp
qed

text \<open>
  Claim C5. After any sequence of add, edit, delete and scan operations, from any state,
  saving the store and starting the application on the saved document yields the same
  reminders (and alarms) by value.
\<close>

theorem save_then_load:
  "fst (save_data Disk_ok (run_ops ops st)) = Returned
   \<and> fst (app_init (data_file (snd (save_data Disk_ok (run_ops ops st))))) = Returned
   \<and> reminders (snd (app_init (data_file (snd (save_data Disk_ok (run_ops ops st))))))
       = reminders (run_ops ops st)
   \<and> alarms (snd (app_init (data_file (snd (save_data Disk_ok (run_ops ops st))))))
       = alarms (run_ops ops st)"
  by (simp add: save_data_def app_init_def load_data_def load_data_body_def swallow_def
      fresh_app_def document_def dict_get_default_def)

theorem save_then_load_witness:
  "reminders (snd (app_init (data_file (snd (save_data Disk_ok
      (run_ops [Add Disk_ok 1717250000000 call_bob_form, Add Disk_ok 1717250000000 pay_rent_form]
         (fresh_app Missing)))))))
   = PList [PDict call_bob, PDict pay_rent]"
proof -
  have "reminders (snd (app_init (data_file (snd (save_data Disk_ok
      (run_ops [Add Disk_ok 1717250000000 call_bob_form, Add Disk_ok 1717250000000 pay_rent_form]
         (fresh_app Missing)))))))
     = reminders (run_ops [Add Disk_ok 1717250000000 call_bob_form,
         Add Disk_ok 1717250000000 pay_rent_form] (fresh_app Missing))"
    using save_then_load [of "[Add Disk_ok 1717250000000 call_bob_form,
         Add Disk_ok 1717250000000 pay_rent_form]" "fresh_app Missing"] by blast
  then show ?thesis by (simp only: twins)
qed

lemma add_rejects_blank_title:
  "strip (f_title f) = [] \<Longrightarrow> add_reminder_gui dk clock_ms f st = (Returned, st)"
  by (simp add: add_reminder_gui_def)

text \<open>
  Claim C9 fails on the code. \<^verbatim>\<open>add_reminder_gui\<close> refuses a title of blanks, but the
  \<^verbatim>\<open>save\<close> of the edit dialog stores the stripped title without the check: editing
  "Call Bob" with the title replaced by three blanks leaves a stored reminder whose title
  is the empty string.
\<close>

theorem edit_stores_empty_title:
  "add_reminder_gui Disk_ok 1717250000000 (call_bob_form\<lparr>f_title := ''   ''\<rparr>) (fresh_app Missing)
     = (Returned, fresh_app Missing)
   \<and> fst (edit_reminder Disk_ok (Row_id 1717250000000) blank_title_edit call_bob_app) = Returned
   \<and> reminders (snd (edit_reminder Disk_ok (Row_id 1717250000000) blank_title_edit call_bob_app))
       = PList [PDict (dict_set ''title'' (PStr []) call_bob)]
   \<and> titles_of [PDict (dict_set ''title'' (PStr []) call_bob)] = [PStr []]"
  apply (intro conjI)
     apply (simp add: add_reminder_gui_def call_bob_form_def strip_def is_space_def)
    apply (simp_all add: edit_reminder_def call_bob_app_def fresh_app_def call_bob_def
      edit_dialog_def blank_title_edit_def remove_voice_def save_first_def save_rest_def
      put_reminder_def save_data_def Let_def strip_def is_space_def basename_raises_def
      dict_get_default_def)
  apply (simp_all add: strftime_ymd_def get_24hour_time_def format_02d_def zfill_def dec.simps digit_def)
  done

theorem edit_stores_empty_title_witness:
  "titles_of [PDict (dict_set ''title'' (PStr []) call_bob)] = [PStr []]"
  using edit_stores_empty_title by (rule conjunct2 [THEN conjunct2, THEN conjunct2])

end
